theory Spec2Isabelle
  imports Main
begin

section \<open>C strings in fixed-size character arrays\<close>

text \<open>
  The firmware is one C file, \<^verbatim>\<open>AlarmDial.c\<close>, whose \<^verbatim>\<open>main\<close> holds all state in
  local variables. A \<^verbatim>\<open>char\<close> array of the source is a \<open>char list\<close> of the declared
  length, stale bytes behind the terminator included. On the target (RP2040,
  arm-none-eabi-gcc) plain \<^verbatim>\<open>char\<close> is an unsigned byte, which is what \<open>char\<close> is in HOL.

  Reading or writing past the end of an array is undefined in C; the model makes it
  the outcome \<open>Inl Overrun\<close>. The deliberate watchdog reboot is the outcome \<open>Inl Reboot\<close>.
\<close>

datatype stop = Overrun | Reboot

definition andThen :: "stop + 'a \<Rightarrow> ('a \<Rightarrow> stop + 'b) \<Rightarrow> stop + 'b" where
  "andThen m f = (case m of Inl e \<Rightarrow> Inl e | Inr x \<Rightarrow> f x)"

abbreviation NUL :: char where "NUL \<equiv> CHR 0x00"

text \<open>The bytes of a buffer up to its first NUL: what \<^verbatim>\<open>%s\<close>, \<^verbatim>\<open>strlen\<close> and
  \<^verbatim>\<open>strcpy\<close> read when the buffer holds a terminator.\<close>

definition cstr :: "char list \<Rightarrow> string" where
  "cstr buf = takeWhile (\<lambda>c. c \<noteq> NUL) buf"

text \<open>Reading a C string from an array: runs off the array when no NUL is there.\<close>

definition c_str :: "char list \<Rightarrow> stop + string" where
  "c_str buf = (if NUL \<in> set buf then Inr (cstr buf) else Inl Overrun)"

text \<open>\<^verbatim>\<open>strcpy(dst, src)\<close> with the source given by its contents: writes the
  contents and the terminator, leaves the rest of \<open>dst\<close> as it was.\<close>

definition strcpy :: "char list \<Rightarrow> string \<Rightarrow> stop + char list" where
  "strcpy dst src =
     (if length src < length dst then Inr (src @ NUL # drop (Suc (length src)) dst)
      else Inl Overrun)"

text \<open>\<^verbatim>\<open>strncpy(dst, src, n)\<close>: exactly \<open>n\<close> bytes are written, the source padded
  with NULs when shorter and cut without a terminator when longer.\<close>

definition strncpy :: "char list \<Rightarrow> string \<Rightarrow> nat \<Rightarrow> stop + char list" where
  "strncpy dst src n =
     (if n \<le> length dst then Inr (take n (src @ replicate n NUL) @ drop n dst)
      else Inl Overrun)"

text \<open>\<^verbatim>\<open>strncmp(a, b, n) == 0\<close> on the contents of two terminated strings, the end
  of a list standing for its terminator.\<close>

fun strncmp_eq :: "string \<Rightarrow> string \<Rightarrow> nat \<Rightarrow> bool" where
  "strncmp_eq a b 0 = True"
| "strncmp_eq [] [] (Suc n) = True"
| "strncmp_eq (x # a) (y # b) (Suc n) = (x = y \<and> strncmp_eq a b n)"
| "strncmp_eq a b (Suc n) = False"

section \<open>The state of \<^verbatim>\<open>main\<close>\<close>

abbreviation max_str_l :: nat where "max_str_l \<equiv> 200"
abbreviation GPIO_NUMBER_PINS :: nat where "GPIO_NUMBER_PINS \<equiv> 3"
abbreviation FLASH_SETTINGS_BYTES :: nat where "FLASH_SETTINGS_BYTES \<equiv> 1024"

text \<open>Times are microseconds since boot (\<^verbatim>\<open>absolute_time_t\<close>); the 64-bit counter
  does not wrap within the life of the device, so they are integers.\<close>

record main_state =
  multi_stage_handling_type :: nat
  multi_stage_message :: "char list list"
  received :: "bool list"
  received_response :: "char list list"
  received_sms_text :: "char list"
  last_status :: "bool list"
  last_status_check_time :: int
  last_passw_reset_time :: int
  last_passw_reset_check_time :: int
  awaiting_response :: "bool list"
  received_sms :: bool
  last_creg_check_time :: int
  last_cpsi_check_time :: int
  last_cmgd_time :: int
  initiate_time :: "int list"
  flash_settings :: "char list"
  store_new_flash_settings :: bool
  passw :: "char list"
  tel_no :: "char list"
  send_sms_on_change :: "bool list"
  sms_on_fall :: "char list list"
  sms_on_rise :: "char list list"
  flash :: "char list"
  uart_tx :: "string list"

text \<open>\<open>flash\<close> is the 1024-byte record at \<^verbatim>\<open>FLASH_TARGET_OFFSET\<close>; \<open>uart_tx\<close> lists what
  \<^verbatim>\<open>write_command\<close> has sent to the modem, oldest first. The LED variables are left
  out: nothing else reads them.\<close>

definition default_passw :: string where "default_passw = ''674358''"
definition default_tel_no :: string where "default_tel_no = ''+447700900000''"
definition default_send_sms_on_change :: "bool list" where
  "default_send_sms_on_change = [True, True, True]"
definition default_sms_on_fall :: "string list" where
  "default_sms_on_fall = [''Intruder alarm triggered'', ''Alarm system armed'', ''Panic button pressed'']"
definition default_sms_on_rise :: "string list" where
  "default_sms_on_rise = [''Intruder alarm cleared'', ''Alarm system disarmed'', ''Panic button cleared'']"

text \<open>The declared sizes of the arrays.\<close>

definition sizes_ok :: "main_state \<Rightarrow> bool" where
  "sizes_ok s \<longleftrightarrow>
     length (passw s) = 7 \<and> length (tel_no s) = 50 \<and>
     length (send_sms_on_change s) = GPIO_NUMBER_PINS \<and>
     length (sms_on_fall s) = GPIO_NUMBER_PINS \<and> list_all (\<lambda>r. length r = 50) (sms_on_fall s) \<and>
     length (sms_on_rise s) = GPIO_NUMBER_PINS \<and> list_all (\<lambda>r. length r = 50) (sms_on_rise s) \<and>
     length (flash_settings s) = FLASH_SETTINGS_BYTES \<and> length (flash s) = FLASH_SETTINGS_BYTES"

section \<open>Persistent configuration\<close>

text \<open>The checksum loop of lines 351-353 and 1035-1037: a \<^verbatim>\<open>uint8_t\<close> accumulator over
  bytes 1 to 1023, the wrap-around written out.\<close>

definition checksum_of :: "char list \<Rightarrow> nat" where
  "checksum_of fs =
     foldl (\<lambda>checksum i. (checksum + of_char (fs ! i)) mod 256) 0 [1..<FLASH_SETTINGS_BYTES]"

text \<open>Lines 360-366 and 814-820: the defaults are copied into the arrays.\<close>

fun strcpy_rows :: "char list list \<Rightarrow> string list \<Rightarrow> stop + char list list" where
  "strcpy_rows (row # rows) (d # ds) =
     andThen (strcpy row d) (\<lambda>row'. andThen (strcpy_rows rows ds) (\<lambda>rows'. Inr (row' # rows')))"
| "strcpy_rows rows ds = Inr rows"

definition apply_defaults :: "main_state \<Rightarrow> stop + main_state" where
  "apply_defaults s =
     andThen (strcpy (passw s) default_passw) (\<lambda>p.
     andThen (strcpy (tel_no s) default_tel_no) (\<lambda>t.
     andThen (strcpy_rows (sms_on_fall s) default_sms_on_fall) (\<lambda>f.
     andThen (strcpy_rows (sms_on_rise s) default_sms_on_rise) (\<lambda>r.
       Inr (s\<lparr>passw := p, tel_no := t, sms_on_fall := f, sms_on_rise := r,
              send_sms_on_change := default_send_sms_on_change\<rparr>)))))"

text \<open>Lines 375-377: \<^verbatim>\<open>do { dst[i++] = flash_settings[++l]; } while (flash_settings[l]);\<close>\<close>

function read_field :: "char list \<Rightarrow> nat \<Rightarrow> char list \<Rightarrow> nat \<Rightarrow> stop + (char list \<times> nat)" where
  "read_field dst i fs l =
     (if Suc l < length fs \<and> i < length dst then
        (if fs ! Suc l \<noteq> NUL then read_field (dst[i := fs ! Suc l]) (Suc i) fs (Suc l)
         else Inr (dst[i := fs ! Suc l], Suc l))
      else Inl Overrun)"
  by pat_completeness auto
termination
  by (relation "measure (\<lambda>(dst, i, fs, l). length fs - l)") auto

declare read_field.simps [simp del]

fun read_rows :: "char list list \<Rightarrow> char list \<Rightarrow> nat \<Rightarrow> stop + (char list list \<times> nat)" where
  "read_rows [] fs l = Inr ([], l)"
| "read_rows (row # rows) fs l =
     andThen (read_field row 0 fs l) (\<lambda>(row', l').
     andThen (read_rows rows fs l') (\<lambda>(rows', l''). Inr (row' # rows', l'')))"

text \<open>Lines 394-395: a \<^verbatim>\<open>bool\<close> assigned from a byte is true when the byte is not 0.\<close>

fun read_flags :: "bool list \<Rightarrow> char list \<Rightarrow> nat \<Rightarrow> stop + (bool list \<times> nat)" where
  "read_flags [] fs l = Inr ([], l)"
| "read_flags (b # bs) fs l =
     (if Suc l < length fs then
        andThen (read_flags bs fs (Suc l)) (\<lambda>(bs', l'). Inr ((fs ! Suc l \<noteq> NUL) # bs', l'))
      else Inl Overrun)"

definition apply_flash :: "main_state \<Rightarrow> stop + main_state" where
  "apply_flash s =
     (let fs = flash_settings s in
      andThen (read_field (passw s) 0 fs 0) (\<lambda>(p, l).
      andThen (read_field (tel_no s) 0 fs l) (\<lambda>(t, l).
      andThen (read_rows (sms_on_fall s) fs l) (\<lambda>(f, l).
      andThen (read_rows (sms_on_rise s) fs l) (\<lambda>(r, l).
      andThen (read_flags (send_sms_on_change s) fs l) (\<lambda>(c, l).
        Inr (s\<lparr>passw := p, tel_no := t, sms_on_fall := f, sms_on_rise := r,
               send_sms_on_change := c\<rparr>)))))))"

text \<open>Lines 349-406, with \<open>store_new_flash_settings\<close> initialised to false (line 289).\<close>

definition load_settings :: "main_state \<Rightarrow> stop + main_state" where
  "load_settings s0 =
     (let s = s0\<lparr>flash_settings := take FLASH_SETTINGS_BYTES (flash s0),
                 store_new_flash_settings := False\<rparr>
      in if checksum_of (flash_settings s) \<noteq> of_char (flash_settings s ! 0)
         then andThen (apply_defaults s) (\<lambda>s'. Inr (s'\<lparr>store_new_flash_settings := True\<rparr>))
         else apply_flash s)"

text \<open>Lines 1017-1038: the record is laid out from byte 1 on.\<close>

fun store_bytes :: "char list \<Rightarrow> nat \<Rightarrow> char list \<Rightarrow> stop + (char list \<times> nat)" where
  "store_bytes fs l [] = Inr (fs, l)"
| "store_bytes fs l (b # bs) =
     (if l < length fs then store_bytes (fs[l := b]) (Suc l) bs else Inl Overrun)"

definition store_string :: "char list \<Rightarrow> nat \<Rightarrow> char list \<Rightarrow> stop + (char list \<times> nat)" where
  "store_string fs l arr = andThen (c_str arr) (\<lambda>str. store_bytes fs l (str @ [NUL]))"

fun store_rows :: "char list \<Rightarrow> nat \<Rightarrow> char list list \<Rightarrow> stop + (char list \<times> nat)" where
  "store_rows fs l [] = Inr (fs, l)"
| "store_rows fs l (row # rows) =
     andThen (store_string fs l row) (\<lambda>(fs', l'). store_rows fs' l' rows)"

definition byte_of_bool :: "bool \<Rightarrow> char" where
  "byte_of_bool b = (if b then CHR 0x01 else NUL)"

definition serialise :: "main_state \<Rightarrow> stop + char list" where
  "serialise s =
     andThen (store_bytes (flash_settings s) 1 (passw s)) (\<lambda>(fs, l).
     andThen (store_string fs l (tel_no s)) (\<lambda>(fs, l).
     andThen (store_rows fs l (sms_on_fall s)) (\<lambda>(fs, l).
     andThen (store_rows fs l (sms_on_rise s)) (\<lambda>(fs, l).
     andThen (store_bytes fs l (map byte_of_bool (send_sms_on_change s))) (\<lambda>(fs, l).
       Inr (fs[0 := char_of (checksum_of fs)]))))))"

text \<open>Lines 1013-1049 without the guard: serialise, erase and program the sector, clear
  the flag. The guard is in the loop below.\<close>

definition save_settings :: "main_state \<Rightarrow> stop + main_state" where
  "save_settings s =
     andThen (serialise s) (\<lambda>fs.
       Inr (s\<lparr>flash_settings := fs, flash := take FLASH_SETTINGS_BYTES fs,
              store_new_flash_settings := False\<rparr>))"

section \<open>Talking to the modem\<close>

abbreviation CR :: char where "CR \<equiv> CHR 0x0D"
abbreviation DQUOTE :: char where "DQUOTE \<equiv> CHR 0x22"
abbreviation CTRL_Z :: char where "CTRL_Z \<equiv> CHR 0x1A"

text \<open>The response kinds, lines 61-73, and the multi-stage actions, lines 91-100.\<close>

abbreviation OK :: nat where "OK \<equiv> 0"
abbreviation ERROR :: nat where "ERROR \<equiv> 1"
abbreviation CPSI :: nat where "CPSI \<equiv> 2"
abbreviation CREG :: nat where "CREG \<equiv> 3"
abbreviation CPMS :: nat where "CPMS \<equiv> 4"
abbreviation CSQ :: nat where "CSQ \<equiv> 5"
abbreviation CMGD :: nat where "CMGD \<equiv> 6"
abbreviation CMGS :: nat where "CMGS \<equiv> 7"
abbreviation CMTI :: nat where "CMTI \<equiv> 8"
abbreviation CMGR :: nat where "CMGR \<equiv> 9"
abbreviation CLCC :: nat where "CLCC \<equiv> 10"
abbreviation UNKNOWN :: nat where "UNKNOWN \<equiv> 11"
abbreviation MAX_MSG :: nat where "MAX_MSG \<equiv> 12"

abbreviation MULTI_STAGE_RECEIVED_SIGNAL_REQUEST :: nat where "MULTI_STAGE_RECEIVED_SIGNAL_REQUEST \<equiv> 1"
abbreviation MULTI_STAGE_RECEIVED_TEL_NO :: nat where "MULTI_STAGE_RECEIVED_TEL_NO \<equiv> 2"
abbreviation MULTI_STAGE_RECEIVED_PW :: nat where "MULTI_STAGE_RECEIVED_PW \<equiv> 3"
abbreviation MULTI_STAGE_RECEIVED_PIN_ACTION :: nat where "MULTI_STAGE_RECEIVED_PIN_ACTION \<equiv> 4"
abbreviation MULTI_STAGE_RECEIVED_MSG :: nat where "MULTI_STAGE_RECEIVED_MSG \<equiv> 5"
abbreviation MULTI_STAGE_SEND_SIGNAL_LEVEL :: nat where "MULTI_STAGE_SEND_SIGNAL_LEVEL \<equiv> 6"
abbreviation MULTI_STAGE_SEND_STATUS_MSG :: nat where "MULTI_STAGE_SEND_STATUS_MSG \<equiv> 7"
abbreviation MULTI_STAGE_RECEIVED_DEFAULTS :: nat where "MULTI_STAGE_RECEIVED_DEFAULTS \<equiv> 8"
abbreviation MULTI_STAGE_INVALID_COMMAND :: nat where "MULTI_STAGE_INVALID_COMMAND \<equiv> 9"
abbreviation MULTI_STAGE_MAX_ACTIONS :: nat where "MULTI_STAGE_MAX_ACTIONS \<equiv> 10"

text \<open>The sizes of the flag, time and message arrays.\<close>

definition tables_ok :: "main_state \<Rightarrow> bool" where
  "tables_ok s \<longleftrightarrow>
     length (received s) = MAX_MSG \<and> length (awaiting_response s) = MAX_MSG \<and>
     length (initiate_time s) = MAX_MSG \<and>
     length (received_response s) = MAX_MSG \<and>
     list_all (\<lambda>r. length r = max_str_l) (received_response s) \<and>
     length (multi_stage_message s) = MULTI_STAGE_MAX_ACTIONS \<and>
     list_all (\<lambda>r. length r = max_str_l) (multi_stage_message s) \<and>
     length (received_sms_text s) = max_str_l \<and> length (last_status s) = GPIO_NUMBER_PINS"

text \<open>Lines 153-158: \<^verbatim>\<open>write_command\<close> sends the bytes of the command up to its
  terminator, at most \<^verbatim>\<open>max_str_l\<close> of them.\<close>

definition write_command :: "string \<Rightarrow> main_state \<Rightarrow> main_state" where
  "write_command command s = s\<lparr>uart_tx := uart_tx s @ [take max_str_l command]\<rparr>"

text \<open>\<^verbatim>\<open>sprintf\<close> or \<^verbatim>\<open>strcpy\<close> into a local buffer of \<^verbatim>\<open>max_str_l\<close> bytes: the text
  and its terminator have to fit.\<close>

definition sprintf_local :: "string \<Rightarrow> stop + string" where
  "sprintf_local text = (if length text < max_str_l then Inr text else Inl Overrun)"

text \<open>Lines 185-193: \<^verbatim>\<open>send_sms\<close>. The 500 ms sleep between the two writes is
  not modelled.\<close>

definition send_sms :: "char list \<Rightarrow> char list \<Rightarrow> main_state \<Rightarrow> stop + main_state" where
  "send_sms tel message s =
     andThen (c_str tel) (\<lambda>t.
     andThen (sprintf_local (''AT+CMGS='' @ [DQUOTE] @ t @ [DQUOTE, CR])) (\<lambda>msg1.
     andThen (c_str message) (\<lambda>m.
     andThen (sprintf_local (m @ [CTRL_Z])) (\<lambda>msg2.
       Inr (write_command msg2 (write_command msg1 s))))))"

text \<open>Setting the flags of a dispatched request, as every handler does:
  \<^verbatim>\<open>initiate_time[k] = current_time; awaiting_response[k] = true;
  awaiting_response[UNKNOWN] = true;\<close>\<close>

definition await :: "nat \<Rightarrow> int \<Rightarrow> main_state \<Rightarrow> main_state" where
  "await k now s =
     s\<lparr>initiate_time := (initiate_time s)[k := now],
       awaiting_response := (awaiting_response s)[k := True, UNKNOWN := True]\<rparr>"

section \<open>Message classifier\<close>

text \<open>Lines 468-533. \<open>line\<close> holds the \<open>l\<close> bytes the drain loop of lines 456-464 has
  stored in \<^verbatim>\<open>str\<close>: the bytes of one buffered line without CR and LF, at most
  \<^verbatim>\<open>max_str_l - 1\<close> of them. \<^verbatim>\<open>str[l] = 0\<close> then makes \<open>cstr line\<close> the string that the
  comparisons read.\<close>

definition store_response :: "nat \<Rightarrow> string \<Rightarrow> main_state \<Rightarrow> stop + main_state" where
  "store_response k str s =
     andThen (strcpy (received_response s ! k) str) (\<lambda>r.
       Inr (s\<lparr>received := (received s)[k := True],
              received_response := (received_response s)[k := r]\<rparr>))"

definition classify :: "char list \<Rightarrow> main_state \<Rightarrow> stop + main_state" where
  "classify line s =
     (let str = cstr line in
      if length line > 0 then
        if strncmp_eq str ''OK'' 2 then Inr (s\<lparr>received := (received s)[OK := True]\<rparr>)
        else if strncmp_eq str ''ERROR'' 5 then Inr (s\<lparr>received := (received s)[ERROR := True]\<rparr>)
        else if strncmp_eq str ''+CPSI'' 5 then store_response CPSI str s
        else if strncmp_eq str ''+CREG'' 5 then store_response CREG str s
        else if strncmp_eq str ''+CPMS'' 5 then store_response CPMS str s
        else if strncmp_eq str ''+CSQ'' 4 then store_response CSQ str s
        else if strncmp_eq str ''+CMGD'' 5 then store_response CMGD str s
        else if strncmp_eq str ''+CMGS'' 5 then store_response CMGS str s
        else if strncmp_eq str ''+CMTI'' 5 then store_response CMTI str s
        else if strncmp_eq str ''+CMGR'' 5 then store_response CMGR str s
        else if strncmp_eq str ''+CLCC'' 5 then store_response CLCC str s
        else if take 1 str = ''>'' then Inr s
        else if str = [] then Inr s
        else if take 1 str = ''+'' then store_response UNKNOWN str s
        else if awaiting_response s ! CMGR then
          andThen (strcpy (received_sms_text s) str) (\<lambda>t.
            Inr (s\<lparr>received_sms := True, received_sms_text := t\<rparr>))
        else Inr s
      else Inr s)"

section \<open>SMS command parser\<close>

text \<open>\<^verbatim>\<open>sizeof\<close> of the password array and of a string literal (its characters and
  the terminator).\<close>

abbreviation sizeof_passw :: nat where "sizeof_passw \<equiv> 7"

definition sizeof_lit :: "string \<Rightarrow> nat" where
  "sizeof_lit str = Suc (length str)"

text \<open>\<^verbatim>\<open>%1d\<close>: a number in decimal.\<close>

function dec :: "nat \<Rightarrow> string" where
  "dec n = (if n < 10 then [char_of (48 + n)] else dec (n div 10) @ [char_of (48 + n mod 10)])"
  by pat_completeness auto
termination
  by (relation "measure id") auto

declare dec.simps [simp del]

text \<open>\<^verbatim>\<open>sprintf\<close> or \<^verbatim>\<open>strcpy\<close> of a reply into \<^verbatim>\<open>multi_stage_message[k]\<close>.\<close>

definition stage_message :: "nat \<Rightarrow> string \<Rightarrow> main_state \<Rightarrow> stop + main_state" where
  "stage_message k text s =
     andThen (strcpy (multi_stage_message s ! k) text) (\<lambda>m.
       Inr (s\<lparr>multi_stage_message := (multi_stage_message s)[k := m]\<rparr>))"

text \<open>Lines 661-670.\<close>

definition cmd_signal :: "main_state \<times> bool \<Rightarrow> stop + main_state \<times> bool" where
  "cmd_signal = (\<lambda>(s, recognised_instruction).
     andThen (c_str (passw s)) (\<lambda>pw.
     andThen (sprintf_local (pw @ '' Signal?'')) (\<lambda>str.
       if strncmp_eq (cstr (received_sms_text s)) str (sizeof_passw + sizeof_lit '' Signal?'' - 2)
       then Inr (s\<lparr>multi_stage_handling_type := MULTI_STAGE_RECEIVED_SIGNAL_REQUEST\<rparr>, False)
       else Inr (s, recognised_instruction))))"

text \<open>Lines 672-700, the number check commented out as in the source.\<close>

definition cmd_telephone_number :: "main_state \<times> bool \<Rightarrow> stop + main_state \<times> bool" where
  "cmd_telephone_number = (\<lambda>(s, recognised_instruction).
     andThen (c_str (passw s)) (\<lambda>pw.
     andThen (sprintf_local (pw @ '' TelephoneNumber!'')) (\<lambda>str.
       let j = sizeof_passw + sizeof_lit '' TelephoneNumber!'' - 2 in
       if strncmp_eq (cstr (received_sms_text s)) str j then
         andThen (c_str (drop j (received_sms_text s))) (\<lambda>arg.
         andThen (sprintf_local arg) (\<lambda>str.
         andThen (strncpy (tel_no s) str 49) (\<lambda>t.
         andThen (stage_message MULTI_STAGE_RECEIVED_TEL_NO ''Ok. Changed telephone number''
                    (s\<lparr>multi_stage_handling_type := MULTI_STAGE_RECEIVED_TEL_NO, tel_no := t,
                       store_new_flash_settings := True\<rparr>)) (\<lambda>s'.
           Inr (s', False)))))
       else Inr (s, recognised_instruction))))"

text \<open>Lines 702-728.\<close>

definition cmd_password :: "main_state \<times> bool \<Rightarrow> stop + main_state \<times> bool" where
  "cmd_password = (\<lambda>(s, recognised_instruction).
     andThen (c_str (passw s)) (\<lambda>pw.
     andThen (sprintf_local (pw @ '' Password!'')) (\<lambda>str.
       let j = sizeof_passw + sizeof_lit '' Password!'' - 2 in
       if strncmp_eq (cstr (received_sms_text s)) str j then
         andThen (c_str (drop j (received_sms_text s))) (\<lambda>arg.
         andThen (sprintf_local arg) (\<lambda>str.
           let s1 = s\<lparr>multi_stage_handling_type := MULTI_STAGE_RECEIVED_PW\<rparr> in
           if length str = 6 then
             andThen (strcpy (passw s1) str) (\<lambda>p.
             andThen (stage_message MULTI_STAGE_RECEIVED_PW ''Ok. Changed password''
                        (s1\<lparr>passw := p, store_new_flash_settings := True\<rparr>)) (\<lambda>s'.
               Inr (s', False)))
           else
             andThen (stage_message MULTI_STAGE_RECEIVED_PW
                        ''Error. Invalid password (needs to be 6 characters)'' s1) (\<lambda>s'.
               Inr (s', False))))
       else Inr (s, recognised_instruction))))"

text \<open>Lines 730-756. \<open>i\<close> is an \<^verbatim>\<open>int\<close>: the byte at \<open>j\<close> minus the code of \<^verbatim>\<open>'1'\<close>.\<close>

definition cmd_sms_on_input :: "main_state \<times> bool \<Rightarrow> stop + main_state \<times> bool" where
  "cmd_sms_on_input = (\<lambda>(s, recognised_instruction).
     andThen (c_str (passw s)) (\<lambda>pw.
     andThen (sprintf_local (pw @ '' SMSonInput!'')) (\<lambda>str.
       let j = sizeof_passw + sizeof_lit '' SMSonInput!'' - 2 in
       if strncmp_eq (cstr (received_sms_text s)) str j then
         let s1 = s\<lparr>multi_stage_handling_type := MULTI_STAGE_RECEIVED_PIN_ACTION\<rparr>;
             i = int (of_char (received_sms_text s ! j)) - int (of_char CHR ''1'')
         in
         if i \<ge> 0 \<and> i < int GPIO_NUMBER_PINS \<and> received_sms_text s ! (j + 1) = NUL then
           let flags = (send_sms_on_change s1)[nat i := \<not> send_sms_on_change s1 ! nat i] in
           andThen (stage_message MULTI_STAGE_RECEIVED_PIN_ACTION
                      (''Ok. Input '' @ dec (nat (i + 1)) @ '' will '' @
                       (if flags ! nat i then [] else ''not '') @ ''trigger SMS from now on'')
                      (s1\<lparr>send_sms_on_change := flags, store_new_flash_settings := True\<rparr>)) (\<lambda>s'.
             Inr (s', False))
         else
           andThen (stage_message MULTI_STAGE_RECEIVED_PIN_ACTION
                      (''Error. Invalid input number (must be 1-'' @ dec GPIO_NUMBER_PINS @ '')'') s1) (\<lambda>s'.
             Inr (s', False))
       else Inr (s, recognised_instruction))))"

text \<open>Lines 758-799. \<^verbatim>\<open>strncpy\<close> writes bytes 0 to 48 of the row and leaves byte 49 as
  it was. The reply quotes the stored message with \<^verbatim>\<open>%s\<close>, which reads from the start
  of row \<open>k\<close> to the first NUL: when the row holds none, on through the rows that follow
  it in the same two-dimensional array. Only a read past the last row leaves the array.\<close>

definition cmd_message_text :: "main_state \<times> bool \<Rightarrow> stop + main_state \<times> bool" where
  "cmd_message_text = (\<lambda>(s, recognised_instruction).
     andThen (c_str (passw s)) (\<lambda>pw.
     andThen (sprintf_local (pw @ '' MessageText!'')) (\<lambda>str.
       let j = sizeof_passw + sizeof_lit '' MessageText!'' - 2;
           text = received_sms_text s in
       if strncmp_eq (cstr text) str j then
         let s1 = s\<lparr>multi_stage_handling_type := MULTI_STAGE_RECEIVED_MSG\<rparr>;
             k = int (of_char (text ! j)) - int (of_char CHR ''1'');
             l0 = (if strncmp_eq (cstr (drop (j + 2) text)) ''On!'' 3 then 1
                   else if strncmp_eq (cstr (drop (j + 2) text)) ''Off!'' 4 then 2 else (0::nat));
             l = (if text ! (j + 1) \<noteq> CHR ''!'' then 0 else l0)
         in
         if k \<ge> 0 \<and> k < int GPIO_NUMBER_PINS \<and> l \<noteq> 0 then
           if l = 1 then
             andThen (strncpy (sms_on_fall s1 ! nat k) (cstr (drop (j + 5) text)) (50 - 1)) (\<lambda>row.
             let rows = (sms_on_fall s1)[nat k := row] in
             andThen (c_str (concat (drop (nat k) rows))) (\<lambda>shown.
             andThen (stage_message MULTI_STAGE_RECEIVED_MSG
                        (''Ok. New message for input '' @ dec (nat (k + 1)) @ '' activating: '' @
                         [DQUOTE] @ shown @ [DQUOTE])
                        (s1\<lparr>sms_on_fall := rows\<rparr>)) (\<lambda>s'.
               Inr (s'\<lparr>store_new_flash_settings := True\<rparr>, False))))
           else
             andThen (strncpy (sms_on_rise s1 ! nat k) (cstr (drop (j + 6) text)) (50 - 1)) (\<lambda>row.
             let rows = (sms_on_rise s1)[nat k := row] in
             andThen (c_str (concat (drop (nat k) rows))) (\<lambda>shown.
             andThen (stage_message MULTI_STAGE_RECEIVED_MSG
                        (''Ok. New message for input '' @ dec (nat (k + 1)) @ '' deactivating: '' @
                         [DQUOTE] @ shown @ [DQUOTE])
                        (s1\<lparr>sms_on_rise := rows\<rparr>)) (\<lambda>s'.
               Inr (s'\<lparr>store_new_flash_settings := True\<rparr>, False))))
         else
           andThen (stage_message MULTI_STAGE_RECEIVED_MSG ''Error. Invalid message change request'' s1) (\<lambda>s'.
             Inr (s', False))
       else Inr (s, recognised_instruction))))"

text \<open>Lines 801-823.\<close>

definition cmd_defaults :: "main_state \<times> bool \<Rightarrow> stop + main_state \<times> bool" where
  "cmd_defaults = (\<lambda>(s, recognised_instruction).
     andThen (c_str (passw s)) (\<lambda>pw.
     andThen (sprintf_local (pw @ '' Defaults!'')) (\<lambda>str.
       let j = sizeof_passw + sizeof_lit '' Defaults!'' - 2 in
       if strncmp_eq (cstr (received_sms_text s)) str j then
         andThen (stage_message MULTI_STAGE_RECEIVED_DEFAULTS ''Ok. Resetting settings to defaults''
                    (s\<lparr>multi_stage_handling_type := MULTI_STAGE_RECEIVED_DEFAULTS\<rparr>)) (\<lambda>s1.
         andThen (apply_defaults s1) (\<lambda>s2.
           Inr (s2\<lparr>store_new_flash_settings := True\<rparr>, False)))
       else Inr (s, recognised_instruction))))"

text \<open>Lines 825-833.\<close>

definition cmd_invalid :: "main_state \<times> bool \<Rightarrow> stop + main_state" where
  "cmd_invalid = (\<lambda>(s, recognised_instruction).
     if recognised_instruction then
       stage_message MULTI_STAGE_INVALID_COMMAND ''Invalid instruction''
         (s\<lparr>multi_stage_handling_type := MULTI_STAGE_INVALID_COMMAND\<rparr>)
     else Inr s)"

text \<open>Lines 659-833: the parser tries every command in turn, each against the password
  as it stands at that point.\<close>

definition parse_sms :: "main_state \<Rightarrow> stop + main_state" where
  "parse_sms s =
     (let recognised_instruction =
            strncmp_eq (cstr (received_sms_text s)) (cstr (passw s)) (sizeof_passw - 1)
      in andThen (cmd_signal (s, recognised_instruction)) (\<lambda>r.
         andThen (cmd_telephone_number r) (\<lambda>r.
         andThen (cmd_password r) (\<lambda>r.
         andThen (cmd_sms_on_input r) (\<lambda>r.
         andThen (cmd_message_text r) (\<lambda>r.
         andThen (cmd_defaults r) cmd_invalid))))))"

text \<open>Lines 646-845: the handler of a completed read-out and its two discard branches.\<close>

definition process_cmgr :: "int \<Rightarrow> main_state \<Rightarrow> stop + main_state" where
  "process_cmgr now s =
     (if received s ! CMGR \<and> awaiting_response s ! CMGR \<and> received_sms s then
        parse_sms
          (await OK now
             (s\<lparr>received := (received s)[CMGR := False],
                awaiting_response := (awaiting_response s)[CMGR := False],
                received_sms := False\<rparr>))
      else if received s ! CMGR \<and> \<not> awaiting_response s ! CMGR then
        Inr (s\<lparr>received := (received s)[CMGR := False], received_sms := False\<rparr>)
      else if \<not> awaiting_response s ! CMGR \<and> received_sms s then
        Inr (s\<lparr>received_sms := False\<rparr>)
      else Inr s)"

section \<open>The control loop\<close>

text \<open>What one traversal of the loop reads from outside: the clock (line 449), the line
  drained from the ring buffer if a complete one is buffered (lines 453-466), and the
  levels of the three alarm inputs and of the password-reset input.\<close>

record loop_input =
  current_time :: int
  rx_line :: "char list option"
  gpio :: "bool list"
  gpio_pw_reset :: bool

text \<open>Lines 418-432: the time stamps and flags as the loop finds them first. The modem
  bring-up between loading the settings and this point only talks to the UART.\<close>

definition init_loop :: "int \<Rightarrow> main_state \<Rightarrow> main_state" where
  "init_loop t s =
     s\<lparr>last_status_check_time := t, last_passw_reset_time := t, last_passw_reset_check_time := t,
       last_creg_check_time := t, last_cpsi_check_time := t, last_cmgd_time := t,
       received := replicate MAX_MSG False, awaiting_response := replicate MAX_MSG False,
       initiate_time := replicate MAX_MSG t\<rparr>"

definition receive :: "loop_input \<Rightarrow> main_state \<Rightarrow> stop + main_state" where
  "receive inp s = (case rx_line inp of None \<Rightarrow> Inr s | Some line \<Rightarrow> classify line s)"

text \<open>Lines 538-540: \<^verbatim>\<open>awaiting_response[UNKNOWN]\<close> collects the other flags; it is the
  "busy" flag that gates every new action.\<close>

definition collect_awaiting :: "main_state \<Rightarrow> main_state" where
  "collect_awaiting s =
     s\<lparr>awaiting_response :=
         (awaiting_response s)
           [UNKNOWN := foldl (\<lambda>u i. u \<or> awaiting_response s ! i) False [0..<MAX_MSG - 1]]\<rparr>"

abbreviation CPSI_CHECK_INTERVAL_US :: int where "CPSI_CHECK_INTERVAL_US \<equiv> 2419200000000"
abbreviation CREG_CHECK_INTERVAL_US :: int where "CREG_CHECK_INTERVAL_US \<equiv> 28800000000"
abbreviation CMGD_INTERVAL_US :: int where "CMGD_INTERVAL_US \<equiv> 86400000000"

text \<open>\<^verbatim>\<open>strstr(hay, needle) != NULL\<close> on the contents of a string.\<close>

fun strstr :: "string \<Rightarrow> string \<Rightarrow> bool" where
  "strstr [] needle = (needle = [])"
| "strstr (c # hay) needle = (take (length needle) (c # hay) = needle \<or> strstr hay needle)"

text \<open>Lines 543-552.\<close>

definition cpsi_check :: "loop_input \<Rightarrow> main_state \<Rightarrow> main_state" where
  "cpsi_check inp s =
     (if current_time inp - last_cpsi_check_time s > CPSI_CHECK_INTERVAL_US \<and>
         \<not> awaiting_response s ! UNKNOWN
      then (await CPSI (current_time inp) (write_command (''AT+CPSI?'' @ [CR]) s))
             \<lparr>last_cpsi_check_time := current_time inp\<rparr>
      else s)"

text \<open>Lines 553-586. A reply without "Online" re-arms the watchdog to 1 ms and spins.\<close>

definition cpsi_response :: "loop_input \<Rightarrow> main_state \<Rightarrow> stop + main_state" where
  "cpsi_response inp s =
     (if received s ! CPSI \<and> awaiting_response s ! CPSI then
        let s1 = s\<lparr>received := (received s)[CPSI := False],
                   awaiting_response := (awaiting_response s)[CPSI := False]\<rparr> in
        andThen (c_str (received_response s1 ! CPSI)) (\<lambda>response.
          if strstr response ''Online'' then
            andThen (c_str (drop 7 (received_response s1 ! CPSI))) (\<lambda>rest.
            andThen (stage_message MULTI_STAGE_SEND_STATUS_MSG (''Modem check: '' @ rest) s1) (\<lambda>s2.
              Inr (await OK (current_time inp)
                     (s2\<lparr>multi_stage_handling_type := MULTI_STAGE_SEND_STATUS_MSG\<rparr>))))
          else Inl Reboot)
      else if received s ! CPSI then Inr (s\<lparr>received := (received s)[CPSI := False]\<rparr>)
      else Inr s)"

text \<open>Lines 588-614.\<close>

definition creg_check :: "loop_input \<Rightarrow> main_state \<Rightarrow> main_state" where
  "creg_check inp s =
     (if current_time inp - last_creg_check_time s > CREG_CHECK_INTERVAL_US \<and>
         \<not> awaiting_response s ! UNKNOWN
      then (await CREG (current_time inp) (write_command (''AT+CREG?'' @ [CR]) s))
             \<lparr>last_creg_check_time := current_time inp\<rparr>
      else s)"

definition creg_response :: "loop_input \<Rightarrow> main_state \<Rightarrow> main_state" where
  "creg_response inp s =
     (if received s ! CREG \<and> awaiting_response s ! CREG then
        await OK (current_time inp)
          (s\<lparr>received := (received s)[CREG := False],
             awaiting_response := (awaiting_response s)[CREG := False]\<rparr>)
      else if received s ! CREG then s\<lparr>received := (received s)[CREG := False]\<rparr>
      else s)"

text \<open>Lines 616-628: the index of the new SMS is read from byte 12 of the \<^verbatim>\<open>+CMTI\<close> line.\<close>

definition process_cmti :: "loop_input \<Rightarrow> main_state \<Rightarrow> stop + main_state" where
  "process_cmti inp s =
     (if received s ! CMTI \<and> \<not> awaiting_response s ! UNKNOWN then
        andThen (c_str (drop 12 (received_response s ! CMTI))) (\<lambda>index.
        andThen (sprintf_local (''AT+CMGR='' @ index @ [CR])) (\<lambda>str.
          Inr (await CMGR (current_time inp)
                 (write_command str (s\<lparr>received := (received s)[CMTI := False]\<rparr>)))))
      else Inr s)"

text \<open>Lines 630-644.\<close>

definition process_clcc :: "loop_input \<Rightarrow> main_state \<Rightarrow> main_state" where
  "process_clcc inp s =
     (if received s ! CLCC \<and> \<not> awaiting_response s ! UNKNOWN then
        await OK (current_time inp)
          (write_command (''AT+CHUP'' @ [CR]) (s\<lparr>received := (received s)[CLCC := False]\<rparr>))
      else s)"

text \<open>Lines 854-857:
  \<^verbatim>\<open>for (i = 0; (r[6+i] != ',') && (i < j); i++) str[i] = r[6+i];\<close>\<close>

function csq_copy :: "char list \<Rightarrow> int \<Rightarrow> nat \<Rightarrow> stop + char list" where
  "csq_copy r j i =
     (if 6 + i < length r then
        (if r ! (6 + i) \<noteq> CHR '','' \<and> int i < j
         then andThen (csq_copy r j (Suc i)) (\<lambda>str. Inr (r ! (6 + i) # str))
         else Inr [])
      else Inl Overrun)"
  by pat_completeness auto
termination
  by (relation "measure (\<lambda>(r, j, i). length r - i)") auto

declare csq_copy.simps [simp del]

text \<open>Lines 847-870.\<close>

definition process_csq :: "loop_input \<Rightarrow> main_state \<Rightarrow> stop + main_state" where
  "process_csq inp s =
     (if received s ! CSQ \<and> awaiting_response s ! CSQ then
        let s1 = s\<lparr>received := (received s)[CSQ := False],
                   awaiting_response := (awaiting_response s)[CSQ := False]\<rparr> in
        andThen (c_str (received_response s1 ! CSQ)) (\<lambda>response.
        andThen (csq_copy (received_response s1 ! CSQ) (int (length response) - 1) 0) (\<lambda>str.
        andThen (stage_message MULTI_STAGE_SEND_SIGNAL_LEVEL (''Signal quality is '' @ cstr str) s1) (\<lambda>s2.
          Inr (await OK (current_time inp)
                 (s2\<lparr>multi_stage_handling_type := MULTI_STAGE_SEND_SIGNAL_LEVEL\<rparr>)))))
      else if received s ! CSQ then Inr (s\<lparr>received := (received s)[CSQ := False]\<rparr>)
      else Inr s)"

text \<open>Lines 872-882.\<close>

definition cmgd_check :: "loop_input \<Rightarrow> main_state \<Rightarrow> main_state" where
  "cmgd_check inp s =
     (if current_time inp - last_cmgd_time s > CMGD_INTERVAL_US \<and> \<not> awaiting_response s ! UNKNOWN
      then (await OK (current_time inp) (write_command (''AT+CMGD=0,4'' @ [CR]) s))
             \<lparr>last_cmgd_time := current_time inp\<rparr>
      else s)"

text \<open>Lines 884-900.\<close>

definition process_cmgs :: "loop_input \<Rightarrow> main_state \<Rightarrow> main_state" where
  "process_cmgs inp s =
     (if received s ! CMGS \<and> awaiting_response s ! CMGS then
        await OK (current_time inp)
          (s\<lparr>received := (received s)[CMGS := False],
             awaiting_response := (awaiting_response s)[CMGS := False]\<rparr>)
      else if received s ! CMGS then s\<lparr>received := (received s)[CMGS := False]\<rparr>
      else s)"

text \<open>Lines 902-935: the arrival of OK advances the pending multi-stage action.\<close>

definition process_ok :: "loop_input \<Rightarrow> main_state \<Rightarrow> stop + main_state" where
  "process_ok inp s =
     (if received s ! OK \<and> awaiting_response s ! OK then
        let s1 = s\<lparr>received := (received s)[OK := False],
                   awaiting_response := (awaiting_response s)[OK := False]\<rparr> in
        if multi_stage_handling_type s1 = MULTI_STAGE_RECEIVED_SIGNAL_REQUEST then
          Inr ((await CSQ (current_time inp) (write_command (''AT+CSQ'' @ [CR]) s1))
                 \<lparr>multi_stage_handling_type := 0\<rparr>)
        else if multi_stage_handling_type s1 \<noteq> 0 then
          andThen (send_sms (tel_no s1) (multi_stage_message s1 ! multi_stage_handling_type s1) s1) (\<lambda>s2.
            Inr ((await CMGS (current_time inp) s2)\<lparr>multi_stage_handling_type := 0\<rparr>))
        else Inr s1
      else if received s ! OK then Inr (s\<lparr>received := (received s)[OK := False]\<rparr>)
      else Inr s)"

text \<open>Lines 937-949, the SMS about an unknown message commented out as in the source.\<close>

definition process_unknown :: "main_state \<Rightarrow> main_state" where
  "process_unknown s =
     (if received s ! UNKNOWN \<and> \<not> awaiting_response s ! UNKNOWN
      then s\<lparr>received := (received s)[UNKNOWN := False]\<rparr> else s)"

text \<open>Lines 951-961: one pass of the timeout loop for kind \<open>i\<close>, and the loop over the
  kinds \<open>0\<close> to \<open>MAX_MSG - 2\<close>.\<close>

definition check_timeout :: "int \<Rightarrow> main_state \<Rightarrow> nat \<Rightarrow> main_state" where
  "check_timeout now s i =
     (if now - initiate_time s ! i > (if i = OK then 60000000 else 9000000) \<and>
         awaiting_response s ! i
      then s\<lparr>awaiting_response := (awaiting_response s)[i := False],
             multi_stage_handling_type := (if i = CMGR then 0 else multi_stage_handling_type s)\<rparr>
      else s)"

definition check_timeouts :: "loop_input \<Rightarrow> main_state \<Rightarrow> main_state" where
  "check_timeouts inp s = foldl (check_timeout (current_time inp)) s [0..<MAX_MSG - 1]"

text \<open>Lines 963-981: the scan of the alarm inputs. \<open>gpio inp ! i\<close> is
  \<^verbatim>\<open>gpio_get(GPIO_PIN_FIRST + i)\<close>; a low level means "activated".\<close>

definition scan_pin :: "loop_input \<Rightarrow> nat \<Rightarrow> main_state \<Rightarrow> stop + main_state" where
  "scan_pin inp i s =
     (let status = \<not> gpio inp ! i in
      if status \<noteq> last_status s ! i then
        let s1 = s\<lparr>last_status := (last_status s)[i := \<not> last_status s ! i]\<rparr> in
        if send_sms_on_change s1 ! i then
          andThen (send_sms (tel_no s1) (if status then sms_on_fall s1 ! i else sms_on_rise s1 ! i) s1)
            (\<lambda>s2. Inr (await CMGS (current_time inp) s2))
        else Inr s1
      else Inr s)"

fun scan_pins :: "loop_input \<Rightarrow> nat list \<Rightarrow> main_state \<Rightarrow> stop + main_state" where
  "scan_pins inp [] s = Inr s"
| "scan_pins inp (i # pins) s = andThen (scan_pin inp i s) (scan_pins inp pins)"

definition check_gpio :: "loop_input \<Rightarrow> main_state \<Rightarrow> stop + main_state" where
  "check_gpio inp s =
     (if current_time inp - last_status_check_time s > 1000000 \<and> \<not> awaiting_response s ! UNKNOWN
      then scan_pins inp [0..<GPIO_NUMBER_PINS] (s\<lparr>last_status_check_time := current_time inp\<rparr>)
      else Inr s)"

text \<open>Lines 983-999.\<close>

definition check_pw_reset :: "loop_input \<Rightarrow> main_state \<Rightarrow> stop + main_state" where
  "check_pw_reset inp s =
     (if current_time inp - last_passw_reset_check_time s > 1000000 \<and>
         current_time inp - last_passw_reset_time s > 10000000 \<and>
         \<not> awaiting_response s ! UNKNOWN
      then
        let s1 = s\<lparr>last_passw_reset_check_time := current_time inp\<rparr> in
        if \<not> gpio_pw_reset inp then
          andThen (strcpy (passw s1) default_passw) (\<lambda>p.
          andThen (send_sms (tel_no s1) (''Password reset to default'' @ [NUL])
                     (s1\<lparr>last_passw_reset_time := current_time inp, passw := p,
                         store_new_flash_settings := True\<rparr>))
            (\<lambda>s2. Inr (await CMGS (current_time inp) s2)))
        else Inr s1
      else Inr s)"

text \<open>Lines 1012-1049.\<close>

definition save_if_needed :: "main_state \<Rightarrow> stop + main_state" where
  "save_if_needed s =
     (if store_new_flash_settings s \<and> \<not> awaiting_response s ! UNKNOWN then save_settings s
      else Inr s)"

text \<open>Lines 446-1050: one traversal of the loop, the blocks in the order of the source.\<close>

definition loop_iteration :: "loop_input \<Rightarrow> main_state \<Rightarrow> stop + main_state" where
  "loop_iteration inp s =
     andThen (receive inp s) (\<lambda>s.
     andThen (cpsi_response inp (cpsi_check inp (collect_awaiting s))) (\<lambda>s.
     andThen (process_cmti inp (creg_response inp (creg_check inp s))) (\<lambda>s.
     andThen (process_cmgr (current_time inp) (process_clcc inp s)) (\<lambda>s.
     andThen (process_csq inp s) (\<lambda>s.
     andThen (process_ok inp (process_cmgs inp (cmgd_check inp s))) (\<lambda>s.
     andThen (check_gpio inp (check_timeouts inp (process_unknown s))) (\<lambda>s.
     andThen (check_pw_reset inp s) save_if_needed)))))))"

text \<open>A run of the loop over a list of inputs.\<close>

fun run_loop :: "loop_input list \<Rightarrow> main_state \<Rightarrow> stop + main_state" where
  "run_loop [] s = Inr s"
| "run_loop (inp # inps) s = andThen (loop_iteration inp s) (run_loop inps)"

section \<open>Notions of the specification\<close>

text \<open>The bytes that lines 1017-1034 lay out from byte 1 of the record.\<close>

definition rows_bytes :: "char list list \<Rightarrow> char list" where
  "rows_bytes rows = concat (map (\<lambda>r. cstr r @ [NUL]) rows)"

definition record_image :: "main_state \<Rightarrow> char list" where
  "record_image s =
     passw s @ (cstr (tel_no s) @ [NUL]) @ rows_bytes (sms_on_fall s) @ rows_bytes (sms_on_rise s) @
     map byte_of_bool (send_sms_on_change s)"

text \<open>The configuration value that the arrays hold: password, destination number,
  notify flags, messages on activation, messages on deactivation.\<close>

definition config_of :: "main_state \<Rightarrow> string \<times> string \<times> bool list \<times> string list \<times> string list" where
  "config_of s =
     (cstr (passw s), cstr (tel_no s), send_sms_on_change s,
      map cstr (sms_on_fall s), map cstr (sms_on_rise s))"

definition default_config :: "string \<times> string \<times> bool list \<times> string list \<times> string list" where
  "default_config =
     (''674358'', ''+447700900000'', [True, True, True],
      [''Intruder alarm triggered'', ''Alarm system armed'', ''Panic button pressed''],
      [''Intruder alarm cleared'', ''Alarm system disarmed'', ''Panic button cleared''])"

definition strings_terminated :: "main_state \<Rightarrow> bool" where
  "strings_terminated s \<longleftrightarrow>
     NUL \<in> set (passw s) \<and> NUL \<in> set (tel_no s) \<and>
     list_all (\<lambda>r. NUL \<in> set r) (sms_on_fall s) \<and> list_all (\<lambda>r. NUL \<in> set r) (sms_on_rise s)"

text \<open>The valid domain of the configuration: a password of six characters, none of
  them NUL, and a number and messages that end within their 50 bytes, so of at most 49
  characters.\<close>

definition valid_config :: "main_state \<Rightarrow> bool" where
  "valid_config s \<longleftrightarrow>
     sizes_ok s \<and> length (cstr (passw s)) = 6 \<and> NUL \<in> set (tel_no s) \<and>
     list_all (\<lambda>r. NUL \<in> set r) (sms_on_fall s) \<and> list_all (\<lambda>r. NUL \<in> set r) (sms_on_rise s)"

text \<open>The checksum in the words of the specification: byte 0 is the sum of bytes 1 to
  1023 modulo 256.\<close>

definition sum_bytes :: "char list \<Rightarrow> nat" where
  "sum_bytes fs = sum_list (map of_char (take 1023 (drop 1 fs))) mod 256"

definition record_ok :: "char list \<Rightarrow> bool" where
  "record_ok fs \<longleftrightarrow> of_char (fs ! 0) = sum_bytes fs"

text \<open>The password array of a valid configuration: six characters and the terminator.\<close>

definition passw_is :: "main_state \<Rightarrow> string \<Rightarrow> bool" where
  "passw_is s pw \<longleftrightarrow> passw s = pw @ [NUL] \<and> length pw = 6 \<and> NUL \<notin> set pw"

section \<open>Example states\<close>

text \<open>The locals of \<^verbatim>\<open>main\<close> at power-on over an erased flash sector: the declared
  initialisers, and an arbitrary pattern in what the source leaves uninitialised.\<close>

definition power_on :: main_state where
  "power_on =
     \<lparr>multi_stage_handling_type = 0,
      multi_stage_message = replicate MULTI_STAGE_MAX_ACTIONS (replicate max_str_l (CHR 0xAA)),
      received = replicate MAX_MSG True,
      received_response = replicate MAX_MSG (replicate max_str_l (CHR 0xAA)),
      received_sms_text = replicate max_str_l (CHR 0xAA),
      last_status = [False, False, False],
      last_status_check_time = 0,
      last_passw_reset_time = 0,
      last_passw_reset_check_time = 0,
      awaiting_response = replicate MAX_MSG True,
      received_sms = False,
      last_creg_check_time = 0,
      last_cpsi_check_time = 0,
      last_cmgd_time = 0,
      initiate_time = replicate MAX_MSG 0,
      flash_settings = replicate FLASH_SETTINGS_BYTES (CHR 0xAA),
      store_new_flash_settings = False,
      passw = replicate 7 (CHR 0xAA),
      tel_no = replicate 50 (CHR 0xAA),
      send_sms_on_change = [False, True, False],
      sms_on_fall = replicate GPIO_NUMBER_PINS (replicate 50 (CHR 0xAA)),
      sms_on_rise = replicate GPIO_NUMBER_PINS (replicate 50 (CHR 0xAA)),
      flash = replicate FLASH_SETTINGS_BYTES (CHR 0xFF),
      uart_tx = []\<rparr>"

text \<open>The default configuration in the arrays, and the loop variables as line 418-432
  set them at time 0: the device after a boot, idle.\<close>

definition factory :: main_state where
  "factory = init_loop 0 (power_on
     \<lparr>passw := ''674358'' @ [NUL],
      tel_no := ''+447700900000'' @ replicate 37 NUL,
      send_sms_on_change := [True, True, True],
      sms_on_fall := [''Intruder alarm triggered'' @ replicate 26 NUL, ''Alarm system armed'' @ replicate 32 NUL,
                      ''Panic button pressed'' @ replicate 30 NUL],
      sms_on_rise := [''Intruder alarm cleared'' @ replicate 28 NUL, ''Alarm system disarmed'' @ replicate 29 NUL,
                      ''Panic button cleared'' @ replicate 30 NUL]\<rparr>)"

section \<open>States that the statements below name\<close>

text \<open>The state after a \<^verbatim>\<open>Password!\<close> command with argument \<open>arg\<close>.\<close>

definition after_password :: "main_state \<Rightarrow> string \<Rightarrow> main_state" where
  "after_password s arg =
     (if length arg = 6
      then s\<lparr>multi_stage_handling_type := MULTI_STAGE_RECEIVED_PW, passw := arg @ [NUL],
             store_new_flash_settings := True,
             multi_stage_message := (multi_stage_message s)[MULTI_STAGE_RECEIVED_PW :=
               ''Ok. Changed password'' @ NUL #
               drop (Suc (length ''Ok. Changed password'')) (multi_stage_message s ! MULTI_STAGE_RECEIVED_PW)]\<rparr>
      else s\<lparr>multi_stage_handling_type := MULTI_STAGE_RECEIVED_PW,
             multi_stage_message := (multi_stage_message s)[MULTI_STAGE_RECEIVED_PW :=
               ''Error. Invalid password (needs to be 6 characters)'' @ NUL #
               drop (Suc (length ''Error. Invalid password (needs to be 6 characters)''))
                 (multi_stage_message s ! MULTI_STAGE_RECEIVED_PW)]\<rparr>)"

text \<open>The state after an \<^verbatim>\<open>SMSonInput!\<close> command with argument \<open>arg\<close>.\<close>

definition after_sms_on_input :: "main_state \<Rightarrow> string \<Rightarrow> main_state" where
  "after_sms_on_input s arg =
     (if arg \<in> {''1'', ''2'', ''3''} then
        let i = of_char (hd arg) - 49;
            flags = (send_sms_on_change s)[i := \<not> send_sms_on_change s ! i];
            reply = ''Ok. Input '' @ arg @ '' will '' @ (if flags ! i then [] else ''not '') @
                    ''trigger SMS from now on''
        in s\<lparr>multi_stage_handling_type := MULTI_STAGE_RECEIVED_PIN_ACTION,
              send_sms_on_change := flags, store_new_flash_settings := True,
              multi_stage_message := (multi_stage_message s)[MULTI_STAGE_RECEIVED_PIN_ACTION :=
                reply @ NUL # drop (Suc (length reply)) (multi_stage_message s ! MULTI_STAGE_RECEIVED_PIN_ACTION)]\<rparr>
      else
        s\<lparr>multi_stage_handling_type := MULTI_STAGE_RECEIVED_PIN_ACTION,
          multi_stage_message := (multi_stage_message s)[MULTI_STAGE_RECEIVED_PIN_ACTION :=
            ''Error. Invalid input number (must be 1-3)'' @ NUL #
            drop (Suc (length ''Error. Invalid input number (must be 1-3)''))
              (multi_stage_message s ! MULTI_STAGE_RECEIVED_PIN_ACTION)]\<rparr>)"

text \<open>What the parser must leave alone: the flags and time stamps of the dialogue and
  what was sent to the modem.\<close>

definition same_dialogue :: "main_state \<Rightarrow> main_state \<Rightarrow> bool" where
  "same_dialogue s s' \<longleftrightarrow>
     awaiting_response s' = awaiting_response s \<and> initiate_time s' = initiate_time s \<and>
     received s' = received s \<and> received_sms s' = received_sms s \<and> uart_tx s' = uart_tx s"

text \<open>The idle device holding a received SMS body, and the same with the read-out of
  that SMS complete: header and body received while \<^verbatim>\<open>+CMGR\<close> is awaited.\<close>

definition sms_state :: "string \<Rightarrow> main_state" where
  "sms_state body =
     factory\<lparr>received_sms_text := body @ NUL # replicate (max_str_l - 1 - length body) NUL\<rparr>"

definition cmgr_ready :: "string \<Rightarrow> main_state" where
  "cmgr_ready body =
     (sms_state body)
       \<lparr>received := (replicate MAX_MSG False)[CMGR := True],
        awaiting_response := (replicate MAX_MSG False)[CMGR := True, UNKNOWN := True],
        received_sms := True\<rparr>"

text \<open>Whether the deadline of kind \<open>k\<close> has passed: 60 s for OK, 9 s for the others.\<close>

definition expired :: "int \<Rightarrow> main_state \<Rightarrow> nat \<Rightarrow> bool" where
  "expired now s k \<longleftrightarrow> now - initiate_time s ! k > (if k = OK then 60000000 else 9000000)"






text \<open>Inputs of single traversals: a line arriving, or none, with all inputs high; and
  a scan that finds inputs 1 and 2 low.\<close>

definition line_tick :: "int \<Rightarrow> string \<Rightarrow> loop_input" where
  "line_tick t line = \<lparr>current_time = t, rx_line = Some line, gpio = [True, True, True], gpio_pw_reset = True\<rparr>"

definition idle_tick :: "int \<Rightarrow> loop_input" where
  "idle_tick t = \<lparr>current_time = t, rx_line = None, gpio = [True, True, True], gpio_pw_reset = True\<rparr>"


text \<open>A state in which OK and \<^verbatim>\<open>+CMGR\<close> are awaited since time 0 and an action is
  pending.\<close>

definition both_awaited :: main_state where
  "both_awaited =
     factory\<lparr>awaiting_response := (replicate MAX_MSG False)[OK := True, CMGR := True, UNKNOWN := True],
             multi_stage_handling_type := MULTI_STAGE_RECEIVED_DEFAULTS\<rparr>"

text \<open>An SMS with the right password and an unknown command is read out, and the OK
  that ends the read-out never comes; after that a voice call arrives and is hung up.\<close>

definition lost_ok_trace :: "loop_input list" where
  "lost_ok_trace =
     [line_tick 1000000 (''+CMTI: '' @ [DQUOTE] @ ''SM'' @ [DQUOTE] @ '',1''),
      line_tick 1100000 (''+CMGR: '' @ [DQUOTE] @ ''REC UNREAD'' @ [DQUOTE]),
      line_tick 1200000 ''674358 Status?'',
      idle_tick 62000000,
      idle_tick 62010000]"

definition stale_reply_trace :: "loop_input list" where
  "stale_reply_trace =
     lost_ok_trace @
     [line_tick 70000000 (''+CLCC: 1,1,4,0,0,'' @ [DQUOTE] @ ''+441632960000'' @ [DQUOTE] @ '',145''),
      line_tick 70100000 ''OK'']"

text \<open>Of the outcome of a run: the pending action with the twelve awaiting flags, and
  what was sent to the modem.\<close>

definition pending_and_awaited :: "stop + main_state \<Rightarrow> (nat \<times> bool list) option" where
  "pending_and_awaited r =
     (case r of Inl e \<Rightarrow> None
      | Inr s \<Rightarrow> Some (multi_stage_handling_type s, map (\<lambda>k. awaiting_response s ! k) [0..<MAX_MSG]))"

definition sent_to_modem :: "stop + main_state \<Rightarrow> string list" where
  "sent_to_modem r = (case r of Inl e \<Rightarrow> [] | Inr s \<Rightarrow> uart_tx s)"

text \<open>The read-out handler and the parser index the arrays of the state; these are the
  conditions under which every index and every string read stays inside them. The
  password array holds six characters and the terminator, and the received body is a
  terminated string.\<close>

definition parser_ready :: "main_state \<Rightarrow> bool" where
  "parser_ready s \<longleftrightarrow>
     tables_ok s \<and> sizes_ok s \<and> passw_is s (take 6 (passw s)) \<and>
     NUL \<in> set (received_sms_text s)"

text \<open>The last byte of a message array is NUL.\<close>

definition array_closed :: "char list list \<Rightarrow> bool" where
  "array_closed rows \<longleftrightarrow> rows \<noteq> [] \<and> last rows \<noteq> [] \<and> last (last rows) = NUL"

text \<open>The \<^verbatim>\<open>%s\<close> of a \<^verbatim>\<open>MessageText!\<close> reply stays inside the message array. Byte 19 of
  the body is where such a command names the input. For the inputs before the last one
  the read ends in the last row at the latest, when that row holds a terminator; for the
  last input it needs the byte that \<^verbatim>\<open>strncpy\<close> leaves alone, the last one of the array.\<close>

definition rows_readable :: "main_state \<Rightarrow> bool" where
  "rows_readable s \<longleftrightarrow>
     (if received_sms_text s ! 19 = CHR ''3''
      then array_closed (sms_on_fall s) \<and> array_closed (sms_on_rise s)
      else NUL \<in> set (last (sms_on_fall s)) \<and> NUL \<in> set (last (sms_on_rise s)))"

text \<open>A completed read-out in a device that has booted over an erased flash: the arrays
  hold the defaults, and behind each terminator the bytes they had at power-on.\<close>

definition cmgr_ready_booted :: "string \<Rightarrow> main_state" where
  "cmgr_ready_booted body =
     (cmgr_ready body)
       \<lparr>sms_on_fall := [''Intruder alarm triggered'' @ NUL # replicate 25 (CHR 0xAA),
                        ''Alarm system armed'' @ NUL # replicate 31 (CHR 0xAA),
                        ''Panic button pressed'' @ NUL # replicate 29 (CHR 0xAA)],
        sms_on_rise := [''Intruder alarm cleared'' @ NUL # replicate 27 (CHR 0xAA),
                        ''Alarm system disarmed'' @ NUL # replicate 28 (CHR 0xAA),
                        ''Panic button cleared'' @ NUL # replicate 29 (CHR 0xAA)]\<rparr>"

text \<open>The flag and time arrays have their declared size.\<close>

definition flags_sized :: "main_state \<Rightarrow> bool" where
  "flags_sized s \<longleftrightarrow> length (awaiting_response s) = MAX_MSG \<and> length (initiate_time s) = MAX_MSG"

text \<open>What every block of the loop other than the arrival of OK and the timeout loop
  keeps of the wait for OK, from \<open>s\<close> to \<open>s'\<close> at time \<open>now\<close>: the wait is not ended, its
  time stamp is kept or renewed, and a pending action is not changed unless OK is awaited
  afterwards.\<close>

definition steady :: "int \<Rightarrow> main_state \<Rightarrow> main_state \<Rightarrow> bool" where
  "steady now s s' \<longleftrightarrow>
     flags_sized s' \<and>
     (awaiting_response s ! OK \<longrightarrow> awaiting_response s' ! OK) \<and>
     (awaiting_response s ! UNKNOWN \<longrightarrow> awaiting_response s' ! UNKNOWN) \<and>
     (initiate_time s' ! OK = initiate_time s ! OK \<or> initiate_time s' ! OK = now) \<and>
     (multi_stage_handling_type s' = multi_stage_handling_type s \<or> awaiting_response s' ! OK) \<and>
     received s' ! OK = received s ! OK"

text \<open>A pending action is waited for: the slot is idle or OK is awaited.\<close>

definition pending_awaited :: "main_state \<Rightarrow> bool" where
  "pending_awaited s \<longleftrightarrow> multi_stage_handling_type s = 0 \<or> awaiting_response s ! OK"

section \<open>Facts about the C string functions and the record layout\<close>

lemma andThen_Inr [simp]: "andThen (Inr x) f = f x"
  by (simp add: andThen_def)

lemma andThen_Inl [simp]: "andThen (Inl e) f = Inl e"
  by (simp add: andThen_def)

lemma store_bytes_append:
  "length bs \<le> length rest \<Longrightarrow>
   store_bytes (pre @ rest) (length pre) bs = Inr (pre @ bs @ drop (length bs) rest, length pre + length bs)"
proof (induction bs arbitrary: pre rest)
  case Nil
  then show ?case by simp
next
  case (Cons b bs)
  then obtain r rest' where rest: "rest = r # rest'" by (cases rest) auto
  have "store_bytes ((pre @ [b]) @ rest') (length (pre @ [b])) bs =
        Inr ((pre @ [b]) @ bs @ drop (length bs) rest', length (pre @ [b]) + length bs)"
    using Cons.prems rest by (intro Cons.IH) simp
  then show ?case using rest by (simp add: list_update_append)
qed

lemma cstr_Nil [simp]: "cstr [] = []"
  by (simp add: cstr_def)

lemma cstr_Cons [simp]: "cstr (c # cs) = (if c = NUL then [] else c # cstr cs)"
  by (simp add: cstr_def)

lemma cstr_replicate_NUL [simp]: "cstr (replicate n NUL) = []"
  by (cases n) simp_all

lemma cstr_append_NUL: "NUL \<notin> set str \<Longrightarrow> cstr (str @ NUL # rest) = str"
  unfolding cstr_def by (induction str) auto

lemma cstr_split: "NUL \<in> set buf \<Longrightarrow> buf = cstr buf @ NUL # drop (Suc (length (cstr buf))) buf"
  unfolding cstr_def
  by (induction buf) auto

lemma cstr_no_NUL: "NUL \<notin> set (cstr buf)"
  unfolding cstr_def by (induction buf) auto

lemma cstr_length: "NUL \<in> set buf \<Longrightarrow> length (cstr buf) < length buf"
  unfolding cstr_def by (induction buf) auto

lemma read_field_append:
  "NUL \<notin> set str \<Longrightarrow> i + length str < length dst \<Longrightarrow> length pre = Suc l \<Longrightarrow>
   read_field dst i (pre @ str @ NUL # post) l =
     Inr (take i dst @ str @ NUL # drop (Suc (i + length str)) dst, l + length str + 1)"
proof (induction str arbitrary: dst i pre l)
  case Nil
  then show ?case
    by (subst read_field.simps) (simp add: nth_append upd_conv_take_nth_drop)
next
  case (Cons c str)
  have "read_field (dst[i := c]) (Suc i) ((pre @ [c]) @ str @ NUL # post) (Suc l) =
        Inr (take (Suc i) (dst[i := c]) @ str @ NUL # drop (Suc (Suc i + length str)) (dst[i := c]),
             Suc l + length str + 1)"
    using Cons.prems by (intro Cons.IH) auto
  moreover have "take (Suc i) (dst[i := c]) = take i dst @ [c]"
    using Cons.prems by (simp add: take_Suc_conv_app_nth)
  ultimately show ?case using Cons.prems
    by (subst read_field.simps) (auto simp: nth_append)
qed

lemma store_string_append:
  "NUL \<in> set arr \<Longrightarrow> Suc (length (cstr arr)) \<le> length rest \<Longrightarrow>
   store_string (pre @ rest) (length pre) arr =
     Inr (pre @ (cstr arr @ [NUL]) @ drop (Suc (length (cstr arr))) rest, length pre + Suc (length (cstr arr)))"
  using store_bytes_append [of "cstr arr @ [NUL]" rest pre]
  by (simp add: store_string_def c_str_def)

lemma store_rows_append:
  "\<forall>r\<in>set rows. NUL \<in> set r \<Longrightarrow> length (rows_bytes rows) \<le> length rest \<Longrightarrow>
   store_rows (pre @ rest) (length pre) rows =
     Inr (pre @ rows_bytes rows @ drop (length (rows_bytes rows)) rest, length pre + length (rows_bytes rows))"
proof (induction rows arbitrary: pre rest)
  case Nil
  then show ?case by (simp add: rows_bytes_def)
next
  case (Cons row rows)
  let ?b = "cstr row @ [NUL]"
  have len: "length (rows_bytes (row # rows)) = length ?b + length (rows_bytes rows)"
    by (simp add: rows_bytes_def)
  have 1: "store_string (pre @ rest) (length pre) row =
           Inr ((pre @ ?b) @ drop (length ?b) rest, length (pre @ ?b))"
    using Cons.prems len by (simp add: store_string_append)
  have 2: "store_rows ((pre @ ?b) @ drop (length ?b) rest) (length (pre @ ?b)) rows =
           Inr ((pre @ ?b) @ rows_bytes rows @ drop (length (rows_bytes rows)) (drop (length ?b) rest),
                length (pre @ ?b) + length (rows_bytes rows))"
    using Cons.prems len by (intro Cons.IH) auto
  show ?case
    unfolding store_rows.simps 1 andThen_Inr prod.case 2
    by (simp add: rows_bytes_def add.commute)
qed

lemma read_rows_append:
  "length dsts = length strs \<Longrightarrow> \<forall>s\<in>set strs. NUL \<notin> set s \<Longrightarrow>
   \<forall>(d, s)\<in>set (zip dsts strs). length s < length d \<Longrightarrow> length pre = Suc l \<Longrightarrow>
   \<exists>rows'. read_rows dsts (pre @ concat (map (\<lambda>s. s @ [NUL]) strs) @ post) l =
              Inr (rows', l + length (concat (map (\<lambda>s. s @ [NUL]) strs))) \<and>
            map cstr rows' = strs \<and> map length rows' = map length dsts"
proof (induction dsts strs arbitrary: pre l rule: list_induct2)
  case Nil
  then show ?case by simp
next
  case (Cons d dsts s strs)
  let ?rest = "concat (map (\<lambda>s. s @ [NUL]) strs)"
  have 1: "read_field d 0 (pre @ s @ NUL # (?rest @ post)) l =
           Inr (take 0 d @ s @ NUL # drop (Suc (0 + length s)) d, l + length s + 1)"
    using Cons.prems by (intro read_field_append) auto
  obtain rows' where 2: "read_rows dsts ((pre @ s @ [NUL]) @ ?rest @ post) (l + length s + 1) =
           Inr (rows', (l + length s + 1) + length ?rest)"
      and 3: "map cstr rows' = strs" "map length rows' = map length dsts"
    using Cons.IH [of "pre @ s @ [NUL]" "l + length s + 1"] Cons.prems by auto
  have "read_rows (d # dsts) (pre @ concat (map (\<lambda>s. s @ [NUL]) (s # strs)) @ post) l =
        Inr ((s @ NUL # drop (Suc (length s)) d) # rows', l + length (concat (map (\<lambda>s. s @ [NUL]) (s # strs))))"
    using 1 2 by simp
  moreover have "cstr (s @ NUL # drop (Suc (length s)) d) = s"
    using Cons.prems by (simp add: cstr_append_NUL)
  moreover have "length (s @ NUL # drop (Suc (length s)) d) = length d"
    using Cons.prems by auto
  ultimately show ?case using 3 by simp
qed

lemma byte_of_bool_NUL [simp]: "byte_of_bool b \<noteq> NUL \<longleftrightarrow> b"
  by (simp add: byte_of_bool_def)

lemma read_flags_append:
  "length bs = length cs \<Longrightarrow> length pre = Suc l \<Longrightarrow>
   read_flags bs (pre @ map byte_of_bool cs @ post) l = Inr (cs, l + length cs)"
proof (induction bs cs arbitrary: pre l rule: list_induct2)
  case Nil
  then show ?case by simp
next
  case (Cons b bs c cs)
  have "read_flags bs ((pre @ [byte_of_bool c]) @ map byte_of_bool cs @ post) (Suc l) = Inr (cs, Suc l + length cs)"
    using Cons.prems by (intro Cons.IH) simp
  then show ?case using Cons.prems by (simp add: nth_append)
qed

lemma foldl_mod_sum:
  "foldl (\<lambda>c i. (c + f i) mod 256) a xs mod 256 = (a + sum_list (map f xs)) mod (256::nat)"
proof (induction xs arbitrary: a)
  case Nil
  then show ?case by simp
next
  case (Cons x xs)
  show ?case
    unfolding foldl_Cons Cons.IH
    by (simp add: add.assoc mod_add_left_eq)
qed

lemma foldl_mod_less:
  "a < 256 \<Longrightarrow> foldl (\<lambda>c i. (c + f i) mod 256) a xs < (256::nat)"
  by (induction xs arbitrary: a) auto

lemma checksum_of_less: "checksum_of fs < 256"
  unfolding checksum_of_def by (rule foldl_mod_less) simp

lemma checksum_of_sum:
  assumes "length fs = FLASH_SETTINGS_BYTES"
  shows "checksum_of fs = sum_list (map of_char (drop 1 fs)) mod 256"
proof -
  have "map ((!) fs) [1..<length fs] = drop 1 fs"
    by (metis drop_map drop_upt map_nth plus_nat.add_0)
  with assms have idx: "map (\<lambda>i. fs ! i) [1..<FLASH_SETTINGS_BYTES] = drop 1 fs"
    by simp
  have "checksum_of fs = checksum_of fs mod 256"
    using checksum_of_less by simp
  also have "\<dots> = (0 + sum_list (map (\<lambda>i. of_char (fs ! i)) [1..<FLASH_SETTINGS_BYTES])) mod 256"
    unfolding checksum_of_def by (rule foldl_mod_sum)
  also have "map (\<lambda>i. of_char (fs ! i) :: nat) [1..<FLASH_SETTINGS_BYTES] = map of_char (map (\<lambda>i. fs ! i) [1..<FLASH_SETTINGS_BYTES])"
    by simp
  finally show ?thesis unfolding idx by simp
qed

lemma checksum_of_update0: "checksum_of (fs[0 := c]) = checksum_of fs"
  unfolding checksum_of_def
  by (rule foldl_cong) auto

lemma strings_terminated_iff:
  "strings_terminated s \<longleftrightarrow>
     NUL \<in> set (passw s) \<and> NUL \<in> set (tel_no s) \<and>
     (\<forall>r\<in>set (sms_on_fall s). NUL \<in> set r) \<and> (\<forall>r\<in>set (sms_on_rise s). NUL \<in> set r)"
  by (simp add: strings_terminated_def list_all_iff)

lemma valid_config_iff:
  "valid_config s \<longleftrightarrow>
     sizes_ok s \<and> length (cstr (passw s)) = 6 \<and> NUL \<in> set (tel_no s) \<and>
     (\<forall>r\<in>set (sms_on_fall s). NUL \<in> set r) \<and> (\<forall>r\<in>set (sms_on_rise s). NUL \<in> set r)"
  by (simp add: valid_config_def list_all_iff)

lemma rows_bytes_length:
  "\<forall>r\<in>set rows. NUL \<in> set r \<and> length r = n \<Longrightarrow> length (rows_bytes rows) \<le> n * length rows"
proof (induction rows)
  case Nil
  then show ?case by (simp add: rows_bytes_def)
next
  case (Cons r rows)
  have "length (cstr r) < n" using Cons.prems cstr_length [of r] by auto
  moreover have "length (rows_bytes rows) \<le> n * length rows" using Cons by simp
  ultimately show ?case by (simp add: rows_bytes_def)
qed

lemma record_image_length:
  assumes "sizes_ok s" "strings_terminated s"
  shows "length (record_image s) \<le> 360"
proof -
  have "length (cstr (tel_no s)) < 50"
    using assms cstr_length [of "tel_no s"] by (simp add: sizes_ok_def strings_terminated_iff)
  moreover have "length (rows_bytes (sms_on_fall s)) \<le> 50 * length (sms_on_fall s)"
    using assms by (intro rows_bytes_length) (auto simp: sizes_ok_def strings_terminated_iff list_all_iff)
  moreover have "length (rows_bytes (sms_on_rise s)) \<le> 50 * length (sms_on_rise s)"
    using assms by (intro rows_bytes_length) (auto simp: sizes_ok_def strings_terminated_iff list_all_iff)
  ultimately show ?thesis using assms by (simp add: record_image_def sizes_ok_def)
qed

lemma serialise_image:
  assumes ok: "sizes_ok s" and tm: "strings_terminated s"
  defines "fs' \<equiv> hd (flash_settings s) # record_image s @ drop (Suc (length (record_image s))) (flash_settings s)"
  shows "serialise s = Inr (char_of (checksum_of fs') # tl fs')"
proof -
  let ?h = "hd (flash_settings s)" and ?r0 = "tl (flash_settings s)"
  let ?P = "passw s" and ?T = "cstr (tel_no s) @ [NUL]"
  let ?F = "rows_bytes (sms_on_fall s)" and ?R = "rows_bytes (sms_on_rise s)"
  let ?C = "map byte_of_bool (send_sms_on_change s)"
  have len: "length (record_image s) \<le> 360" using ok tm by (rule record_image_length)
  have lr0: "length ?r0 = 1023" using ok by (simp add: sizes_ok_def)
  have fs: "flash_settings s = [?h] @ ?r0"
    using ok by (cases "flash_settings s") (auto simp: sizes_ok_def)
  have lens: "length (record_image s) = length ?P + length ?T + length ?F + length ?R + length ?C"
    by (simp add: record_image_def)
  have 1: "store_bytes (flash_settings s) 1 ?P = Inr (([?h] @ ?P) @ drop (length ?P) ?r0, length ([?h] @ ?P))"
    using store_bytes_append [of ?P ?r0 "[?h]"] fs len lens lr0 by simp
  have 2: "store_string (([?h] @ ?P) @ drop (length ?P) ?r0) (length ([?h] @ ?P)) (tel_no s) =
           Inr (([?h] @ ?P @ ?T) @ drop (length ?P + length ?T) ?r0, length ([?h] @ ?P @ ?T))"
    using store_string_append [of "tel_no s" "drop (length ?P) ?r0" "[?h] @ ?P"] tm len lens lr0
    by (simp add: strings_terminated_iff add.commute)
  have 3: "store_rows (([?h] @ ?P @ ?T) @ drop (length ?P + length ?T) ?r0) (length ([?h] @ ?P @ ?T)) (sms_on_fall s) =
           Inr (([?h] @ ?P @ ?T @ ?F) @ drop (length ?P + length ?T + length ?F) ?r0, length ([?h] @ ?P @ ?T @ ?F))"
    using store_rows_append [of "sms_on_fall s" "drop (length ?P + length ?T) ?r0" "[?h] @ ?P @ ?T"] tm len lens lr0
    by (simp add: strings_terminated_iff add.commute add.left_commute)
  have 4: "store_rows (([?h] @ ?P @ ?T @ ?F) @ drop (length ?P + length ?T + length ?F) ?r0) (length ([?h] @ ?P @ ?T @ ?F)) (sms_on_rise s) =
           Inr (([?h] @ ?P @ ?T @ ?F @ ?R) @ drop (length ?P + length ?T + length ?F + length ?R) ?r0, length ([?h] @ ?P @ ?T @ ?F @ ?R))"
    using store_rows_append [of "sms_on_rise s" "drop (length ?P + length ?T + length ?F) ?r0" "[?h] @ ?P @ ?T @ ?F"] tm len lens lr0
    by (simp add: strings_terminated_iff add.commute add.left_commute)
  have 5: "store_bytes (([?h] @ ?P @ ?T @ ?F @ ?R) @ drop (length ?P + length ?T + length ?F + length ?R) ?r0) (length ([?h] @ ?P @ ?T @ ?F @ ?R)) ?C =
           Inr (([?h] @ ?P @ ?T @ ?F @ ?R @ ?C) @ drop (length (record_image s)) ?r0, length ([?h] @ ?P @ ?T @ ?F @ ?R @ ?C))"
    using store_bytes_append [of ?C "drop (length ?P + length ?T + length ?F + length ?R) ?r0" "[?h] @ ?P @ ?T @ ?F @ ?R"] len lens lr0
    by (simp add: add.commute add.left_commute)
  have img: "([?h] @ ?P @ ?T @ ?F @ ?R @ ?C) @ drop (length (record_image s)) ?r0 = fs'"
    by (simp add: fs'_def record_image_def drop_Suc)
  show ?thesis
    unfolding serialise_def 1 andThen_Inr prod.case 2 3 4 5 img
    by (simp add: fs'_def)
qed

lemma apply_flash_image:
  assumes fs: "flash_settings b = [c] @ P @ [NUL] @ T @ [NUL] @ concat (map (\<lambda>s. s @ [NUL]) F) @
                 concat (map (\<lambda>s. s @ [NUL]) R) @ map byte_of_bool C @ tail"
    and P: "NUL \<notin> set P" "length P < length (passw b)"
    and T: "NUL \<notin> set T" "length T < length (tel_no b)"
    and F: "length (sms_on_fall b) = length F" "\<forall>s\<in>set F. NUL \<notin> set s"
           "\<forall>(d, s)\<in>set (zip (sms_on_fall b) F). length s < length d"
    and R: "length (sms_on_rise b) = length R" "\<forall>s\<in>set R. NUL \<notin> set s"
           "\<forall>(d, s)\<in>set (zip (sms_on_rise b) R). length s < length d"
    and C: "length (send_sms_on_change b) = length C"
  shows "\<exists>p t f r. apply_flash b = Inr (b\<lparr>passw := p, tel_no := t, sms_on_fall := f, sms_on_rise := r,
                                           send_sms_on_change := C\<rparr>) \<and>
           cstr p = P \<and> cstr t = T \<and> map cstr f = F \<and> map cstr r = R \<and>
           length p = length (passw b) \<and> length t = length (tel_no b) \<and>
           map length f = map length (sms_on_fall b) \<and> map length r = map length (sms_on_rise b)"
proof -
  let ?fs = "flash_settings b"
  let ?FB = "concat (map (\<lambda>s. s @ [NUL]) F)" and ?RB = "concat (map (\<lambda>s. s @ [NUL]) R)"
  let ?p = "take 0 (passw b) @ P @ NUL # drop (Suc (0 + length P)) (passw b)"
  let ?t = "take 0 (tel_no b) @ T @ NUL # drop (Suc (0 + length T)) (tel_no b)"
  let ?l1 = "0 + length P + 1"
  let ?l2 = "?l1 + length T + 1"
  have "read_field (passw b) 0 ([c] @ P @ NUL # (T @ [NUL] @ ?FB @ ?RB @ map byte_of_bool C @ tail)) 0 = Inr (?p, ?l1)"
    using P by (intro read_field_append) auto
  then have 1: "read_field (passw b) 0 ?fs 0 = Inr (?p, ?l1)"
    unfolding fs by simp
  have "read_field (tel_no b) 0 (([c] @ P @ [NUL]) @ T @ NUL # (?FB @ ?RB @ map byte_of_bool C @ tail)) ?l1 = Inr (?t, ?l2)"
    using T by (intro read_field_append) auto
  then have 2: "read_field (tel_no b) 0 ?fs ?l1 = Inr (?t, ?l2)"
    unfolding fs by simp
  obtain f where "read_rows (sms_on_fall b) (([c] @ P @ [NUL] @ T @ [NUL]) @ ?FB @ (?RB @ map byte_of_bool C @ tail)) ?l2 =
                    Inr (f, ?l2 + length ?FB)"
      and f: "map cstr f = F" "map length f = map length (sms_on_fall b)"
    using read_rows_append [OF F(1) F(2) F(3), of "[c] @ P @ [NUL] @ T @ [NUL]" ?l2 "?RB @ map byte_of_bool C @ tail"]
    by auto
  then have 3: "read_rows (sms_on_fall b) ?fs ?l2 = Inr (f, ?l2 + length ?FB)"
    unfolding fs by simp
  obtain r where "read_rows (sms_on_rise b) (([c] @ P @ [NUL] @ T @ [NUL] @ ?FB) @ ?RB @ (map byte_of_bool C @ tail)) (?l2 + length ?FB) =
                    Inr (r, ?l2 + length ?FB + length ?RB)"
      and r: "map cstr r = R" "map length r = map length (sms_on_rise b)"
    using read_rows_append [OF R(1) R(2) R(3), of "[c] @ P @ [NUL] @ T @ [NUL] @ ?FB" "?l2 + length ?FB" "map byte_of_bool C @ tail"]
    by auto
  then have 4: "read_rows (sms_on_rise b) ?fs (?l2 + length ?FB) = Inr (r, ?l2 + length ?FB + length ?RB)"
    unfolding fs by simp
  have "read_flags (send_sms_on_change b) (([c] @ P @ [NUL] @ T @ [NUL] @ ?FB @ ?RB) @ map byte_of_bool C @ tail) (?l2 + length ?FB + length ?RB) =
          Inr (C, ?l2 + length ?FB + length ?RB + length C)"
    using C by (intro read_flags_append) auto
  then have 5: "read_flags (send_sms_on_change b) ?fs (?l2 + length ?FB + length ?RB) =
          Inr (C, ?l2 + length ?FB + length ?RB + length C)"
    unfolding fs by simp
  have "apply_flash b = Inr (b\<lparr>passw := ?p, tel_no := ?t, sms_on_fall := f, sms_on_rise := r,
                                           send_sms_on_change := C\<rparr>)"
    unfolding apply_flash_def Let_def 1 andThen_Inr prod.case 2 3 4 5 ..
  moreover have "cstr ?p = P" "cstr ?t = T"
    using P T by (simp_all add: cstr_append_NUL)
  moreover have "length ?p = length (passw b)" "length ?t = length (tel_no b)"
    using P T by auto
  ultimately show ?thesis using f r by blast
qed

lemma cstr_whole: "NUL \<notin> set buf \<Longrightarrow> cstr buf = buf"
  unfolding cstr_def by (induction buf) auto

lemma valid_config_passw:
  assumes "valid_config s"
  shows "passw s = cstr (passw s) @ [NUL]"
proof -
  have len: "length (passw s) = 7" "length (cstr (passw s)) = 6"
    using assms by (simp_all add: valid_config_iff sizes_ok_def)
  have "NUL \<in> set (passw s)"
  proof (rule ccontr)
    assume "NUL \<notin> set (passw s)"
    then have "cstr (passw s) = passw s" by (rule cstr_whole)
    with len show False by simp
  qed
  then have "passw s = cstr (passw s) @ NUL # drop (Suc (length (cstr (passw s)))) (passw s)"
    by (rule cstr_split)
  then show ?thesis using len by simp
qed

lemma valid_config_terminated:
  assumes "valid_config s"
  shows "strings_terminated s"
proof -
  have "NUL \<in> set (cstr (passw s) @ [NUL])" by simp
  then have "NUL \<in> set (passw s)"
    using valid_config_passw [OF assms] by simp
  then show ?thesis using assms by (simp add: valid_config_iff strings_terminated_iff)
qed

lemma save_then_load:
  assumes v: "valid_config s" and b: "sizes_ok b"
  shows "\<exists>s' b'. save_settings s = Inr s' \<and> load_settings (b\<lparr>flash := flash s'\<rparr>) = Inr b' \<and>
           config_of b' = config_of s \<and> \<not> store_new_flash_settings b' \<and>
           checksum_of (flash s') = of_char (flash s' ! 0)"
proof -
  define fs' where "fs' = hd (flash_settings s) # record_image s @ drop (Suc (length (record_image s))) (flash_settings s)"
  define c where "c = char_of (checksum_of fs')"
  define tail where "tail = drop (Suc (length (record_image s))) (flash_settings s)"
  let ?P = "cstr (passw s)" and ?T = "cstr (tel_no s)"
  let ?F = "map cstr (sms_on_fall s)" and ?R = "map cstr (sms_on_rise s)"
  let ?C = "send_sms_on_change s"
  have ok: "sizes_ok s" and tm: "strings_terminated s"
    using v valid_config_terminated by (auto simp: valid_config_iff)
  have ser: "serialise s = Inr (c # tl fs')"
    unfolding c_def fs'_def using ok tm by (rule serialise_image)
  have len: "length (record_image s) \<le> 360" using ok tm by (rule record_image_length)
  have lfs: "length (c # tl fs') = FLASH_SETTINGS_BYTES"
    using ok len by (simp add: fs'_def sizes_ok_def)
  have upd: "c # tl fs' = fs'[0 := c]" by (simp add: fs'_def)
  have chk: "checksum_of (c # tl fs') = of_char ((c # tl fs') ! 0)"
    unfolding upd checksum_of_update0 using checksum_of_less [of fs'] by (simp add: c_def fs'_def)
  have img: "c # tl fs' = [c] @ ?P @ [NUL] @ ?T @ [NUL] @ concat (map (\<lambda>s. s @ [NUL]) ?F) @
                 concat (map (\<lambda>s. s @ [NUL]) ?R) @ map byte_of_bool ?C @ tail"
    using valid_config_passw [OF v]
    by (simp add: fs'_def tail_def record_image_def rows_bytes_def comp_def)
  define s' where "s' = s\<lparr>flash_settings := c # tl fs', flash := take FLASH_SETTINGS_BYTES (c # tl fs'),
              store_new_flash_settings := False\<rparr>"
  have save: "save_settings s = Inr s'"
    by (simp add: save_settings_def ser s'_def)
  have fl: "flash s' = c # tl fs'"
    using lfs by (simp add: s'_def)
  define b0 where "b0 = b\<lparr>flash := flash s', flash_settings := take FLASH_SETTINGS_BYTES (flash s'),
                 store_new_flash_settings := False\<rparr>"
  have b0fs: "flash_settings b0 = c # tl fs'"
    using lfs by (simp add: b0_def fl)
  have load: "load_settings (b\<lparr>flash := flash s'\<rparr>) = apply_flash b0"
    using chk lfs by (simp add: load_settings_def Let_def b0_def fl)
  have fit: "\<forall>(d, s)\<in>set (zip rows (map cstr rows')). length s < length d"
    if "list_all (\<lambda>r. length r = 50) rows" "list_all (\<lambda>r. length r = 50) rows'" "\<forall>r\<in>set rows'. NUL \<in> set r"
    for rows rows' :: "char list list"
  proof -
    have "length (cstr r') < length d" if "d \<in> set rows" "r' \<in> set rows'" for d r'
      using that \<open>list_all _ rows\<close> \<open>list_all _ rows'\<close> \<open>\<forall>r\<in>set rows'. _\<close> cstr_length [of r']
      by (auto simp: list_all_iff)
    then show ?thesis by (fastforce dest: set_zip_leftD set_zip_rightD)
  qed
  obtain p t f r where app: "apply_flash b0 = Inr (b0\<lparr>passw := p, tel_no := t, sms_on_fall := f, sms_on_rise := r,
                                           send_sms_on_change := ?C\<rparr>)"
      and res: "cstr p = ?P" "cstr t = ?T" "map cstr f = ?F" "map cstr r = ?R"
  proof -
    have "\<exists>p t f r. apply_flash b0 = Inr (b0\<lparr>passw := p, tel_no := t, sms_on_fall := f, sms_on_rise := r,
                                           send_sms_on_change := ?C\<rparr>) \<and>
           cstr p = ?P \<and> cstr t = ?T \<and> map cstr f = ?F \<and> map cstr r = ?R \<and>
           length p = length (passw b0) \<and> length t = length (tel_no b0) \<and>
           map length f = map length (sms_on_fall b0) \<and> map length r = map length (sms_on_rise b0)"
    proof (rule apply_flash_image [where c = c and tail = tail])
      show "flash_settings b0 = [c] @ ?P @ [NUL] @ ?T @ [NUL] @ concat (map (\<lambda>s. s @ [NUL]) ?F) @
                 concat (map (\<lambda>s. s @ [NUL]) ?R) @ map byte_of_bool ?C @ tail"
        using b0fs img by simp
      show "NUL \<notin> set ?P" "NUL \<notin> set ?T" by (rule cstr_no_NUL)+
      show "length ?P < length (passw b0)"
        using v b by (simp add: valid_config_iff b0_def sizes_ok_def)
      show "length ?T < length (tel_no b0)"
        using v b cstr_length [of "tel_no s"] by (simp add: valid_config_iff b0_def sizes_ok_def)
      show "length (sms_on_fall b0) = length ?F" "length (sms_on_rise b0) = length ?R"
           "length (send_sms_on_change b0) = length ?C"
        using v b by (simp_all add: valid_config_iff b0_def sizes_ok_def)
      show "\<forall>s\<in>set ?F. NUL \<notin> set s" "\<forall>s\<in>set ?R. NUL \<notin> set s"
        by (auto simp: cstr_no_NUL)
      show "\<forall>(d, s)\<in>set (zip (sms_on_fall b0) ?F). length s < length d"
        using v b by (intro fit) (simp_all add: valid_config_iff b0_def sizes_ok_def)
      show "\<forall>(d, s)\<in>set (zip (sms_on_rise b0) ?R). length s < length d"
        using v b by (intro fit) (simp_all add: valid_config_iff b0_def sizes_ok_def)
    qed
    then show ?thesis using that by blast
  qed
  let ?b' = "b0\<lparr>passw := p, tel_no := t, sms_on_fall := f, sms_on_rise := r, send_sms_on_change := ?C\<rparr>"
  have "config_of ?b' = config_of s" using res by (simp add: config_of_def)
  moreover have "\<not> store_new_flash_settings ?b'" by (simp add: b0_def)
  moreover have "checksum_of (flash s') = of_char (flash s' ! 0)" using chk fl by simp
  ultimately show ?thesis using save load app by metis
qed

lemma checksum_of_sum_bytes:
  "length fs = FLASH_SETTINGS_BYTES \<Longrightarrow> checksum_of fs = sum_bytes fs"
  by (simp add: checksum_of_sum sum_bytes_def)

lemma length3E:
  assumes "length xs = 3"
  obtains a b c where "xs = [a, b, c]"
proof -
  from assms have "length xs = Suc (Suc (Suc 0))" by simp
  then obtain a b c where "xs = [a, b, c]"
    by (auto simp: length_Suc_conv)
  then show ?thesis by (rule that)
qed

lemma apply_defaults_ok:
  assumes "sizes_ok s"
  shows "\<exists>d. apply_defaults s = Inr d \<and> config_of d = default_config \<and> valid_config d \<and>
              store_new_flash_settings d = store_new_flash_settings s \<and> flash d = flash s"
proof -
  obtain f0 f1 f2 where f: "sms_on_fall s = [f0, f1, f2]"
    using assms by (auto simp: sizes_ok_def elim: length3E)
  obtain r0 r1 r2 where r: "sms_on_rise s = [r0, r1, r2]"
    using assms by (auto simp: sizes_ok_def elim: length3E)
  have lens: "length f0 = 50" "length f1 = 50" "length f2 = 50" "length r0 = 50" "length r1 = 50" "length r2 = 50"
       "length (passw s) = 7" "length (tel_no s) = 50"
    using assms f r by (simp_all add: sizes_ok_def)
  define d where "d = s\<lparr>passw := ''674358'' @ NUL # drop (Suc (length ''674358'')) (passw s),
      tel_no := ''+447700900000'' @ NUL # drop (Suc (length ''+447700900000'')) (tel_no s),
      sms_on_fall := [''Intruder alarm triggered'' @ NUL # drop (Suc (length ''Intruder alarm triggered'')) f0,
                      ''Alarm system armed'' @ NUL # drop (Suc (length ''Alarm system armed'')) f1,
                      ''Panic button pressed'' @ NUL # drop (Suc (length ''Panic button pressed'')) f2],
      sms_on_rise := [''Intruder alarm cleared'' @ NUL # drop (Suc (length ''Intruder alarm cleared'')) r0,
                      ''Alarm system disarmed'' @ NUL # drop (Suc (length ''Alarm system disarmed'')) r1,
                      ''Panic button cleared'' @ NUL # drop (Suc (length ''Panic button cleared'')) r2],
      send_sms_on_change := [True, True, True]\<rparr>"
  have "apply_defaults s = Inr d"
    using lens
    by (simp add: apply_defaults_def strcpy_def f r d_def default_passw_def default_tel_no_def
        default_sms_on_fall_def default_sms_on_rise_def default_send_sms_on_change_def)
  moreover have "config_of d = default_config"
    unfolding config_of_def default_config_def d_def
    by simp
  moreover have "valid_config d"
    using assms lens unfolding valid_config_iff sizes_ok_def d_def
    by simp
  ultimately show ?thesis by (simp add: d_def)
qed

lemma store_bytes_length:
  "store_bytes fs l bs = Inr (fs', l') \<Longrightarrow> length fs' = length fs"
  by (induction bs arbitrary: fs l) (auto split: if_splits)

lemma store_string_length:
  "store_string fs l arr = Inr (fs', l') \<Longrightarrow> length fs' = length fs"
  by (auto simp: store_string_def c_str_def store_bytes_length split: if_splits)

lemma store_rows_length:
  "store_rows fs l rows = Inr (fs', l') \<Longrightarrow> length fs' = length fs"
proof (induction rows arbitrary: fs l)
  case Nil
  then show ?case by simp
next
  case (Cons row rows)
  then show ?case
    by (cases "store_string fs l row") (auto dest: store_string_length)
qed

lemma serialise_record_ok:
  assumes "serialise s = Inr fs'" "length (flash_settings s) = FLASH_SETTINGS_BYTES"
  shows "length fs' = FLASH_SETTINGS_BYTES \<and> record_ok fs'"
proof -
  from assms(1) obtain fs where fs': "fs' = fs[0 := char_of (checksum_of fs)]"
    and len: "length fs = length (flash_settings s)"
    unfolding serialise_def
    by (auto simp: andThen_def split: sum.splits prod.splits
          dest!: store_bytes_length store_string_length store_rows_length)
  have "checksum_of fs' = checksum_of fs" by (simp add: fs' checksum_of_update0)
  moreover have "of_char (fs' ! 0) = checksum_of fs"
    using len assms(2) checksum_of_less [of fs] by (simp add: fs')
  moreover have "length fs' = FLASH_SETTINGS_BYTES" using len assms(2) by (simp add: fs')
  ultimately show ?thesis by (simp add: record_ok_def checksum_of_sum_bytes [symmetric])
qed

lemma sizes_ok_power_on: "sizes_ok power_on"
  by (simp add: sizes_ok_def power_on_def list_all_iff)

lemma record_ok_erased: "\<not> record_ok (replicate FLASH_SETTINGS_BYTES (CHR 0xFF))"
  by (simp add: record_ok_def sum_bytes_def sum_list_replicate)

lemma record_ok_zeroed: "record_ok (replicate FLASH_SETTINGS_BYTES NUL)"
  by (simp add: record_ok_def sum_bytes_def sum_list_replicate)

section \<open>The persisted record\<close>

text \<open>
  Claim C1. On boot the record is accepted exactly when its byte 0 is the sum of bytes 1
  to 1023 modulo 256: then the settings are read from it. Otherwise the configuration is
  the default one and \<open>store_new_flash_settings\<close> is set; saving that state succeeds and
  leaves on flash a record that satisfies the checksum equation and from which a later
  boot reads the defaults. Whatever the state, a record that \<open>save_settings\<close> writes
  satisfies the equation.
\<close>

theorem boot_checksum_and_rewrite:
  assumes "sizes_ok b"
  shows "((record_ok (flash b) \<and>
           load_settings b = apply_flash (b\<lparr>flash_settings := flash b, store_new_flash_settings := False\<rparr>)) \<or>
          (\<not> record_ok (flash b) \<and>
           (\<exists>d d' b'. load_settings b = Inr d \<and> config_of d = default_config \<and> store_new_flash_settings d \<and>
              save_settings d = Inr d' \<and> record_ok (flash d') \<and>
              load_settings (b\<lparr>flash := flash d'\<rparr>) = Inr b' \<and> config_of b' = default_config \<and>
              \<not> store_new_flash_settings b'))) \<and>
         (\<forall>s s'. length (flash_settings s) = FLASH_SETTINGS_BYTES \<longrightarrow> save_settings s = Inr s' \<longrightarrow>
              length (flash s') = FLASH_SETTINGS_BYTES \<and> record_ok (flash s'))"
proof (intro conjI allI impI)
  fix s s'
  assume len: "length (flash_settings s) = FLASH_SETTINGS_BYTES" and save: "save_settings s = Inr s'"
  from save obtain fs where ser: "serialise s = Inr fs" and s': "flash s' = take FLASH_SETTINGS_BYTES fs"
    by (auto simp: save_settings_def andThen_def split: sum.splits)
  from serialise_record_ok [OF ser len] s'
  show "length (flash s') = FLASH_SETTINGS_BYTES" "record_ok (flash s')" by simp_all
next
  let ?b0 = "b\<lparr>flash_settings := take FLASH_SETTINGS_BYTES (flash b), store_new_flash_settings := False\<rparr>"
  have lf: "length (flash b) = FLASH_SETTINGS_BYTES" using assms by (simp add: sizes_ok_def)
  have b0: "?b0 = b\<lparr>flash_settings := flash b, store_new_flash_settings := False\<rparr>"
    using lf by simp
  have ok0: "sizes_ok ?b0" using assms by (simp add: sizes_ok_def)
  have iff: "record_ok (flash b) \<longleftrightarrow> checksum_of (flash b) = of_char (flash b ! 0)"
    using lf by (auto simp: record_ok_def checksum_of_sum_bytes)
  show "(record_ok (flash b) \<and>
           load_settings b = apply_flash (b\<lparr>flash_settings := flash b, store_new_flash_settings := False\<rparr>)) \<or>
          (\<not> record_ok (flash b) \<and>
           (\<exists>d d' b'. load_settings b = Inr d \<and> config_of d = default_config \<and> store_new_flash_settings d \<and>
              save_settings d = Inr d' \<and> record_ok (flash d') \<and>
              load_settings (b\<lparr>flash := flash d'\<rparr>) = Inr b' \<and> config_of b' = default_config \<and>
              \<not> store_new_flash_settings b'))"
  proof (cases "record_ok (flash b)")
    case True
    then have "load_settings b = apply_flash (b\<lparr>flash_settings := flash b, store_new_flash_settings := False\<rparr>)"
      using iff lf by (simp add: load_settings_def)
    with True show ?thesis by simp
  next
    case False
    obtain d0 where d0: "apply_defaults ?b0 = Inr d0" "config_of d0 = default_config" "valid_config d0"
      using apply_defaults_ok [OF ok0] by blast
    let ?d = "d0\<lparr>store_new_flash_settings := True\<rparr>"
    have load: "load_settings b = Inr ?d"
      using False iff d0(1) lf by (simp add: load_settings_def)
    have cfg: "config_of ?d = default_config" using d0(2) by (simp add: config_of_def)
    have val: "valid_config ?d" using d0(3) by (simp add: valid_config_iff sizes_ok_def)
    obtain d' b' where rt: "save_settings ?d = Inr d'" "load_settings (b\<lparr>flash := flash d'\<rparr>) = Inr b'"
        "config_of b' = config_of ?d" "\<not> store_new_flash_settings b'"
        "checksum_of (flash d') = of_char (flash d' ! 0)"
      using save_then_load [OF val assms] by blast
    from rt(1) obtain fs where ser: "serialise ?d = Inr fs" and d': "flash d' = take FLASH_SETTINGS_BYTES fs"
      by (auto simp: save_settings_def andThen_def split: sum.splits)
    have "length (flash_settings ?d) = FLASH_SETTINGS_BYTES" using val by (simp add: valid_config_iff sizes_ok_def)
    from serialise_record_ok [OF ser this] d' have "record_ok (flash d')" by simp
    with False load cfg rt show ?thesis by auto
  qed
qed

lemma valid_config_factory: "valid_config factory"
  by (simp add: valid_config_def sizes_ok_def factory_def power_on_def init_loop_def)

theorem boot_checksum_and_rewrite_witness:
  "sizes_ok power_on \<and> \<not> record_ok (flash power_on) \<and>
   (\<exists>d d' b'. load_settings power_on = Inr d \<and> config_of d = default_config \<and> store_new_flash_settings d \<and>
      save_settings d = Inr d' \<and> record_ok (flash d') \<and>
      load_settings (power_on\<lparr>flash := flash d'\<rparr>) = Inr b' \<and> config_of b' = default_config \<and>
      \<not> store_new_flash_settings b') \<and>
   sizes_ok (power_on\<lparr>flash := replicate FLASH_SETTINGS_BYTES NUL\<rparr>) \<and>
   record_ok (replicate FLASH_SETTINGS_BYTES NUL) \<and>
   load_settings (power_on\<lparr>flash := replicate FLASH_SETTINGS_BYTES NUL\<rparr>) =
     apply_flash (power_on\<lparr>flash := replicate FLASH_SETTINGS_BYTES NUL,
                           flash_settings := replicate FLASH_SETTINGS_BYTES NUL,
                           store_new_flash_settings := False\<rparr>) \<and>
   (\<exists>s'. save_settings factory = Inr s' \<and> record_ok (flash s'))"
proof -
  have 1: "sizes_ok power_on" by (rule sizes_ok_power_on)
  have 2: "\<not> record_ok (flash power_on)"
    using record_ok_erased by (simp add: power_on_def)
  have 3: "sizes_ok (power_on\<lparr>flash := replicate FLASH_SETTINGS_BYTES NUL\<rparr>)"
    using sizes_ok_power_on by (simp add: sizes_ok_def)
  have 4: "length (flash_settings factory) = FLASH_SETTINGS_BYTES"
    by (simp add: factory_def power_on_def init_loop_def)
  obtain s' where 5: "save_settings factory = Inr s'"
    using save_then_load [OF valid_config_factory sizes_ok_power_on] by blast
  show ?thesis
    using boot_checksum_and_rewrite [OF 1] boot_checksum_and_rewrite [OF 3] 1 2 3 4 5 record_ok_zeroed
    by auto
qed

text \<open>
  Claim C2. For a configuration in the valid domain (a password of six characters
  without NUL, a number and messages of at most 49 characters, three flags), saving it
  and then loading the written record at boot, into arrays of any content, gives the
  same configuration.
\<close>

theorem serialise_deserialise_roundtrip:
  assumes "valid_config s" and "sizes_ok b"
  shows "\<exists>s' b'. save_settings s = Inr s' \<and> load_settings (b\<lparr>flash := flash s'\<rparr>) = Inr b' \<and>
           config_of b' = config_of s \<and> \<not> store_new_flash_settings b'"
  using save_then_load [OF assms] by blast

theorem serialise_deserialise_roundtrip_witness:
  "valid_config factory \<and> sizes_ok power_on \<and>
   (\<exists>s' b'. save_settings factory = Inr s' \<and> load_settings (power_on\<lparr>flash := flash s'\<rparr>) = Inr b' \<and>
           config_of b' = default_config \<and> \<not> store_new_flash_settings b')"
proof -
  have "config_of factory = default_config"
    by (simp add: config_of_def default_config_def factory_def power_on_def init_loop_def)
  then show ?thesis
    using serialise_deserialise_roundtrip [OF valid_config_factory sizes_ok_power_on]
      valid_config_factory sizes_ok_power_on by simp
qed

section \<open>The SMS command parser\<close>

lemma strncmp_eq_take: "strncmp_eq a b n \<longleftrightarrow> take n a = take n b"
  by (induction a b n rule: strncmp_eq.induct) auto

lemma c_str_append_NUL: "NUL \<notin> set str \<Longrightarrow> c_str (str @ NUL # rest) = Inr str"
  by (simp add: c_str_def cstr_append_NUL)

lemma sprintf_local_fits: "length text < max_str_l \<Longrightarrow> sprintf_local text = Inr text"
  by (simp add: sprintf_local_def)

lemma passw_is_c_str: "passw_is s pw \<Longrightarrow> c_str (passw s) = Inr pw"
  using c_str_append_NUL [of pw "[]"] by (simp add: passw_is_def)

lemma passw_is_cstr: "passw_is s pw \<Longrightarrow> cstr (passw s) = pw"
  using cstr_append_NUL [of pw "[]"] by (simp add: passw_is_def)

lemma prefix_mismatch:
  assumes "length pw = 6" "take 6 x \<noteq> pw" "6 \<le> n"
  shows "\<not> strncmp_eq x (pw @ v) n"
proof
  assume "strncmp_eq x (pw @ v) n"
  then have "take n x = take n (pw @ v)" by (simp add: strncmp_eq_take)
  then have "take 6 (take n x) = take 6 (take n (pw @ v))" by simp
  with assms show False by (simp add: min_def)
qed

lemma cmd_signal_mismatch:
  assumes "passw_is s pw" "take 6 (cstr (received_sms_text s)) \<noteq> pw"
  shows "cmd_signal (s, r) = Inr (s, r)"
proof -
  have "length pw = 6" using assms(1) by (simp add: passw_is_def)
  then show ?thesis
    using assms prefix_mismatch [of pw "cstr (received_sms_text s)" _ "'' Signal?''"]
    by (simp add: cmd_signal_def passw_is_c_str sprintf_local_fits sizeof_lit_def)
qed

lemma cmd_telephone_number_mismatch:
  assumes "passw_is s pw" "take 6 (cstr (received_sms_text s)) \<noteq> pw"
  shows "cmd_telephone_number (s, r) = Inr (s, r)"
proof -
  have "length pw = 6" using assms(1) by (simp add: passw_is_def)
  then show ?thesis
    using assms prefix_mismatch [of pw "cstr (received_sms_text s)" _ "'' TelephoneNumber!''"]
    by (simp add: cmd_telephone_number_def passw_is_c_str sprintf_local_fits sizeof_lit_def)
qed

lemma cmd_password_mismatch:
  assumes "passw_is s pw" "take 6 (cstr (received_sms_text s)) \<noteq> pw"
  shows "cmd_password (s, r) = Inr (s, r)"
proof -
  have "length pw = 6" using assms(1) by (simp add: passw_is_def)
  then show ?thesis
    using assms prefix_mismatch [of pw "cstr (received_sms_text s)" _ "'' Password!''"]
    by (simp add: cmd_password_def passw_is_c_str sprintf_local_fits sizeof_lit_def)
qed

lemma cmd_sms_on_input_mismatch:
  assumes "passw_is s pw" "take 6 (cstr (received_sms_text s)) \<noteq> pw"
  shows "cmd_sms_on_input (s, r) = Inr (s, r)"
proof -
  have "length pw = 6" using assms(1) by (simp add: passw_is_def)
  then show ?thesis
    using assms prefix_mismatch [of pw "cstr (received_sms_text s)" _ "'' SMSonInput!''"]
    by (simp add: cmd_sms_on_input_def passw_is_c_str sprintf_local_fits sizeof_lit_def)
qed

lemma cmd_message_text_mismatch:
  assumes "passw_is s pw" "take 6 (cstr (received_sms_text s)) \<noteq> pw"
  shows "cmd_message_text (s, r) = Inr (s, r)"
proof -
  have "length pw = 6" using assms(1) by (simp add: passw_is_def)
  then show ?thesis
    using assms prefix_mismatch [of pw "cstr (received_sms_text s)" _ "'' MessageText!''"]
    by (simp add: cmd_message_text_def passw_is_c_str sprintf_local_fits sizeof_lit_def)
qed

lemma cmd_defaults_mismatch:
  assumes "passw_is s pw" "take 6 (cstr (received_sms_text s)) \<noteq> pw"
  shows "cmd_defaults (s, r) = Inr (s, r)"
proof -
  have "length pw = 6" using assms(1) by (simp add: passw_is_def)
  then show ?thesis
    using assms prefix_mismatch [of pw "cstr (received_sms_text s)" _ "'' Defaults!''"]
    by (simp add: cmd_defaults_def passw_is_c_str sprintf_local_fits sizeof_lit_def)
qed

lemma parse_sms_wrong_password:
  assumes "passw_is s pw" "take 6 (cstr (received_sms_text s)) \<noteq> pw"
  shows "parse_sms s = Inr s"
proof -
  have "length pw = 6" using assms(1) by (simp add: passw_is_def)
  then have "\<not> strncmp_eq (cstr (received_sms_text s)) (cstr (passw s)) (sizeof_passw - 1)"
    using assms(2) passw_is_cstr [OF assms(1)] by (simp add: strncmp_eq_take)
  then show ?thesis
    using assms
    by (simp add: parse_sms_def cmd_signal_mismatch cmd_telephone_number_mismatch cmd_password_mismatch
        cmd_sms_on_input_mismatch cmd_message_text_mismatch cmd_defaults_mismatch cmd_invalid_def)
qed

lemma verb_mismatch:
  assumes "length pw = 6" "length pw' = 6" "take (n - 6) x \<noteq> take (n - 6) v" "6 \<le> n"
  shows "\<not> strncmp_eq (pw @ x) (pw' @ v) n"
  using assms by (simp add: strncmp_eq_take)

lemma cmd_signal_other_verb:
  assumes "passw_is s pw'" "cstr (received_sms_text s) = pw @ x" "length pw = 6" "take 8 x \<noteq> '' Signal?''"
  shows "cmd_signal (s, r) = Inr (s, r)"
proof -
  have "length pw' = 6" using assms(1) by (simp add: passw_is_def)
  then have "\<not> strncmp_eq (pw @ x) (pw' @ '' Signal?'') 14"
    using assms(3,4) by (intro verb_mismatch) simp_all
  then show ?thesis
    using assms(1,2) \<open>length pw' = 6\<close>
    by (simp add: cmd_signal_def passw_is_c_str sprintf_local_fits sizeof_lit_def)
qed

lemma cmd_telephone_number_other_verb:
  assumes "passw_is s pw'" "cstr (received_sms_text s) = pw @ x" "length pw = 6" "take 17 x \<noteq> '' TelephoneNumber!''"
  shows "cmd_telephone_number (s, r) = Inr (s, r)"
proof -
  have "length pw' = 6" using assms(1) by (simp add: passw_is_def)
  then have "\<not> strncmp_eq (pw @ x) (pw' @ '' TelephoneNumber!'') 23"
    using assms(3,4) by (intro verb_mismatch) simp_all
  then show ?thesis
    using assms(1,2) \<open>length pw' = 6\<close>
    by (simp add: cmd_telephone_number_def passw_is_c_str sprintf_local_fits sizeof_lit_def)
qed

lemma cmd_password_other_verb:
  assumes "passw_is s pw'" "cstr (received_sms_text s) = pw @ x" "length pw = 6" "take 10 x \<noteq> '' Password!''"
  shows "cmd_password (s, r) = Inr (s, r)"
proof -
  have "length pw' = 6" using assms(1) by (simp add: passw_is_def)
  then have "\<not> strncmp_eq (pw @ x) (pw' @ '' Password!'') 16"
    using assms(3,4) by (intro verb_mismatch) simp_all
  then show ?thesis
    using assms(1,2) \<open>length pw' = 6\<close>
    by (simp add: cmd_password_def passw_is_c_str sprintf_local_fits sizeof_lit_def)
qed

lemma cmd_sms_on_input_other_verb:
  assumes "passw_is s pw'" "cstr (received_sms_text s) = pw @ x" "length pw = 6" "take 12 x \<noteq> '' SMSonInput!''"
  shows "cmd_sms_on_input (s, r) = Inr (s, r)"
proof -
  have "length pw' = 6" using assms(1) by (simp add: passw_is_def)
  then have "\<not> strncmp_eq (pw @ x) (pw' @ '' SMSonInput!'') 18"
    using assms(3,4) by (intro verb_mismatch) simp_all
  then show ?thesis
    using assms(1,2) \<open>length pw' = 6\<close>
    by (simp add: cmd_sms_on_input_def passw_is_c_str sprintf_local_fits sizeof_lit_def)
qed

lemma cmd_message_text_other_verb:
  assumes "passw_is s pw'" "cstr (received_sms_text s) = pw @ x" "length pw = 6" "take 13 x \<noteq> '' MessageText!''"
  shows "cmd_message_text (s, r) = Inr (s, r)"
proof -
  have "length pw' = 6" using assms(1) by (simp add: passw_is_def)
  then have "\<not> strncmp_eq (pw @ x) (pw' @ '' MessageText!'') 19"
    using assms(3,4) by (intro verb_mismatch) simp_all
  then show ?thesis
    using assms(1,2) \<open>length pw' = 6\<close>
    by (simp add: cmd_message_text_def passw_is_c_str sprintf_local_fits sizeof_lit_def)
qed

lemma cmd_defaults_other_verb:
  assumes "passw_is s pw'" "cstr (received_sms_text s) = pw @ x" "length pw = 6" "take 10 x \<noteq> '' Defaults!''"
  shows "cmd_defaults (s, r) = Inr (s, r)"
proof -
  have "length pw' = 6" using assms(1) by (simp add: passw_is_def)
  then have "\<not> strncmp_eq (pw @ x) (pw' @ '' Defaults!'') 16"
    using assms(3,4) by (intro verb_mismatch) simp_all
  then show ?thesis
    using assms(1,2) \<open>length pw' = 6\<close>
    by (simp add: cmd_defaults_def passw_is_c_str sprintf_local_fits sizeof_lit_def)
qed

lemma stage_message_ok:
  assumes "tables_ok s" "k < MULTI_STAGE_MAX_ACTIONS" "length text < max_str_l"
  shows "stage_message k text s =
           Inr (s\<lparr>multi_stage_message :=
                   (multi_stage_message s)[k := text @ NUL # drop (Suc (length text)) (multi_stage_message s ! k)]\<rparr>)"
proof -
  have "length (multi_stage_message s ! k) = max_str_l"
    using assms(1,2) by (simp add: tables_ok_def list_all_length)
  then show ?thesis using assms(3) by (simp add: stage_message_def strcpy_def)
qed

lemma cmd_password_match:
  assumes pw: "passw_is s pw" and t: "tables_ok s"
    and rx: "received_sms_text s = pw @ '' Password!'' @ arg @ NUL # rest" and arg: "NUL \<notin> set arg"
  shows "cmd_password (s, r) =
           Inr (if length arg = 6
                then s\<lparr>multi_stage_handling_type := MULTI_STAGE_RECEIVED_PW, passw := arg @ [NUL],
                       store_new_flash_settings := True,
                       multi_stage_message := (multi_stage_message s)[MULTI_STAGE_RECEIVED_PW :=
                         ''Ok. Changed password'' @ NUL #
                         drop (Suc (length ''Ok. Changed password'')) (multi_stage_message s ! MULTI_STAGE_RECEIVED_PW)]\<rparr>
                else s\<lparr>multi_stage_handling_type := MULTI_STAGE_RECEIVED_PW,
                       multi_stage_message := (multi_stage_message s)[MULTI_STAGE_RECEIVED_PW :=
                         ''Error. Invalid password (needs to be 6 characters)'' @ NUL #
                         drop (Suc (length ''Error. Invalid password (needs to be 6 characters)''))
                           (multi_stage_message s ! MULTI_STAGE_RECEIVED_PW)]\<rparr>, False)"
proof -
  have lpw: "length pw = 6" "NUL \<notin> set pw" "length (passw s) = 7"
    using pw by (simp_all add: passw_is_def)
  have larg: "length arg < max_str_l"
    using t rx lpw by (simp add: tables_ok_def)
  have body: "cstr (received_sms_text s) = pw @ '' Password!'' @ arg"
    using cstr_append_NUL [of "pw @ '' Password!'' @ arg" rest] lpw arg by (simp add: rx)
  have m: "strncmp_eq (cstr (received_sms_text s)) (pw @ '' Password!'') 16"
    using lpw by (simp add: body strncmp_eq_take)
  have d: "c_str (drop 16 (received_sms_text s)) = Inr arg"
    using lpw arg by (simp add: rx c_str_append_NUL)
  show ?thesis
  proof (cases "length arg = 6")
    case True
    have "strcpy (passw s) arg = Inr (arg @ [NUL])"
      using True lpw by (simp add: strcpy_def)
    then show ?thesis
      using True pw t m d larg lpw
      by (simp add: cmd_password_def passw_is_c_str sprintf_local_fits sizeof_lit_def
          stage_message_ok tables_ok_def)
  next
    case False
    then show ?thesis
      using pw t m d larg lpw
      by (simp add: cmd_password_def passw_is_c_str sprintf_local_fits sizeof_lit_def
          stage_message_ok tables_ok_def)
  qed
qed

lemma parse_sms_password:
  assumes pw: "passw_is s pw" and t: "tables_ok s"
    and rx: "received_sms_text s = pw @ '' Password!'' @ arg @ NUL # rest" and arg: "NUL \<notin> set arg"
  shows "parse_sms s = Inr (after_password s arg)"
proof -
  let ?x = "'' Password!'' @ arg"
  let ?s1 = "after_password s arg"
  have lpw: "length pw = 6" "NUL \<notin> set pw"
    using pw by (simp_all add: passw_is_def)
  have body: "cstr (received_sms_text s) = pw @ ?x"
    using cstr_append_NUL [of "pw @ '' Password!'' @ arg" rest] lpw arg by (simp add: rx)
  have body1: "cstr (received_sms_text ?s1) = pw @ ?x"
    using body by (simp add: after_password_def)
  obtain pw1 where pw1: "passw_is ?s1 pw1"
  proof (cases "length arg = 6")
    case True
    then have "passw_is ?s1 arg" using arg by (simp add: after_password_def passw_is_def)
    then show ?thesis by (rule that)
  next
    case False
    then have "passw_is ?s1 pw" using pw by (simp add: after_password_def passw_is_def)
    then show ?thesis by (rule that)
  qed
  have 1: "cmd_signal (s, r) = Inr (s, r)" for r
    using pw body lpw(1) by (rule cmd_signal_other_verb) simp
  have 2: "cmd_telephone_number (s, r) = Inr (s, r)" for r
    using pw body lpw(1) by (rule cmd_telephone_number_other_verb) simp
  have 3: "cmd_password (s, r) = Inr (?s1, False)" for r
    using cmd_password_match [OF pw t rx arg] by (simp add: after_password_def)
  have 4: "cmd_sms_on_input (?s1, False) = Inr (?s1, False)"
    using pw1 body1 lpw(1) by (rule cmd_sms_on_input_other_verb) simp
  have 5: "cmd_message_text (?s1, False) = Inr (?s1, False)"
    using pw1 body1 lpw(1) by (rule cmd_message_text_other_verb) simp
  have 6: "cmd_defaults (?s1, False) = Inr (?s1, False)"
    using pw1 body1 lpw(1) by (rule cmd_defaults_other_verb) simp
  show ?thesis
    unfolding parse_sms_def Let_def 1 andThen_Inr 2 3 4 5 6
    by (simp add: cmd_invalid_def)
qed

text \<open>
  Claim C4. A \<^verbatim>\<open>Password!\<close> command with the correct password in front stages
  "Error. Invalid password (needs to be 6 characters)" and leaves the password array as it
  was when its argument is not exactly 6 characters long; when it is, the argument
  becomes the password, the configuration is marked dirty and "Ok. Changed password" is
  staged. Either way the pending action is \<^verbatim>\<open>MULTI_STAGE_RECEIVED_PW\<close>.
\<close>

theorem password_command:
  assumes "passw_is s pw" and "tables_ok s"
    and "received_sms_text s = pw @ '' Password!'' @ arg @ NUL # rest" and "NUL \<notin> set arg"
  shows "\<exists>s'. parse_sms s = Inr s' \<and>
           multi_stage_handling_type s' = MULTI_STAGE_RECEIVED_PW \<and>
           (if length arg = 6
            then cstr (passw s') = arg \<and> store_new_flash_settings s' \<and>
                 cstr (multi_stage_message s' ! MULTI_STAGE_RECEIVED_PW) = ''Ok. Changed password''
            else passw s' = passw s \<and>
                 cstr (multi_stage_message s' ! MULTI_STAGE_RECEIVED_PW) =
                   ''Error. Invalid password (needs to be 6 characters)'')"
proof -
  have "length (multi_stage_message s) = MULTI_STAGE_MAX_ACTIONS"
    using assms(2) by (simp add: tables_ok_def)
  then show ?thesis
    using assms(4) cstr_append_NUL [of arg "[]"]
    by (simp add: parse_sms_password [OF assms] after_password_def)
qed

lemma char_of_digits:
  "char_of (49::nat) = CHR ''1''" "char_of (50::nat) = CHR ''2''" "char_of (51::nat) = CHR ''3''"
proof -
  have "char_of (of_char CHR ''1'' :: nat) = CHR ''1''" "char_of (of_char CHR ''2'' :: nat) = CHR ''2''"
       "char_of (of_char CHR ''3'' :: nat) = CHR ''3''"
    by (rule char_of_char)+
  then show "char_of (49::nat) = CHR ''1''" "char_of (50::nat) = CHR ''2''" "char_of (51::nat) = CHR ''3''"
    by simp_all
qed

lemma dec_pins: "dec (Suc 0) = ''1''" "dec 1 = ''1''" "dec 2 = ''2''" "dec 3 = ''3''"
  by (simp_all add: dec.simps char_of_digits)

lemma digit_range:
  "(int (of_char d) - int (of_char CHR ''1'') \<ge> 0 \<and> int (of_char d) - int (of_char CHR ''1'') < 3) \<longleftrightarrow>
   d \<in> {CHR ''1'', CHR ''2'', CHR ''3''}"
proof
  assume "int (of_char d) - int (of_char CHR ''1'') \<ge> 0 \<and> int (of_char d) - int (of_char CHR ''1'') < 3"
  then have "of_char d = (49::nat) \<or> of_char d = (50::nat) \<or> of_char d = (51::nat)"
    by auto
  then have "char_of (of_char d :: nat) = char_of (49::nat) \<or> char_of (of_char d :: nat) = char_of (50::nat) \<or>
             char_of (of_char d :: nat) = char_of (51::nat)"
    by metis
  then show "d \<in> {CHR ''1'', CHR ''2'', CHR ''3''}"
    by (simp add: char_of_digits)
next
  assume "d \<in> {CHR ''1'', CHR ''2'', CHR ''3''}"
  then show "int (of_char d) - int (of_char CHR ''1'') \<ge> 0 \<and> int (of_char d) - int (of_char CHR ''1'') < 3"
    by auto
qed

lemma cmd_sms_on_input_match:
  assumes pw: "passw_is s pw" and t: "tables_ok s"
    and rx: "received_sms_text s = pw @ '' SMSonInput!'' @ arg @ NUL # rest" and arg: "NUL \<notin> set arg"
  shows "cmd_sms_on_input (s, r) = Inr (after_sms_on_input s arg, False)"
proof -
  have lpw: "length pw = 6" "NUL \<notin> set pw"
    using pw by (simp_all add: passw_is_def)
  have body: "cstr (received_sms_text s) = pw @ '' SMSonInput!'' @ arg"
    using cstr_append_NUL [of "pw @ '' SMSonInput!'' @ arg" rest] lpw arg by (simp add: rx)
  have m: "strncmp_eq (cstr (received_sms_text s)) (pw @ '' SMSonInput!'') 18"
    using lpw by (simp add: body strncmp_eq_take)
  have at18: "received_sms_text s ! 18 = (arg @ NUL # rest) ! 0"
    using lpw by (simp add: rx nth_append)
  have at19: "received_sms_text s ! 19 = (arg @ NUL # rest) ! 1"
    using lpw by (simp add: rx nth_append)
  note defs = cmd_sms_on_input_def passw_is_c_str [OF pw] sprintf_local_fits sizeof_lit_def
    stage_message_ok dec_pins after_sms_on_input_def Let_def
  have t1: "tables_ok (s\<lparr>multi_stage_handling_type := MULTI_STAGE_RECEIVED_PIN_ACTION\<rparr>)"
    "tables_ok (s\<lparr>multi_stage_handling_type := MULTI_STAGE_RECEIVED_PIN_ACTION, send_sms_on_change := f,
        store_new_flash_settings := True\<rparr>)" for f
    using t by (simp_all add: tables_ok_def)
  show ?thesis
  proof (cases arg)
    case Nil
    then show ?thesis
      using m lpw t1 by (simp add: defs at18)
  next
    case (Cons d arg')
    have d18: "received_sms_text s ! 18 = d" by (simp add: at18 Cons)
    have d19: "received_sms_text s ! 19 = NUL \<longleftrightarrow> arg' = []"
      using arg by (cases arg') (auto simp: at19 Cons)
    consider (one) "d = CHR ''1''" "arg' = []" | (two) "d = CHR ''2''" "arg' = []"
      | (three) "d = CHR ''3''" "arg' = []"
      | (low) "(of_char d :: nat) < 49" | (high) "(of_char d :: nat) > 51" | (more) "arg' \<noteq> []"
      using digit_range [of d] by fastforce
    then show ?thesis
    proof cases
      case one
      then show ?thesis using m lpw t1 d19 by (simp add: defs d18 Cons)
    next
      case two
      then show ?thesis using m lpw t1 d19 by (simp add: defs d18 Cons)
    next
      case three
      then show ?thesis using m lpw t1 d19 by (simp add: defs d18 Cons)
    next
      case low
      then have "arg \<notin> {''1'', ''2'', ''3''}" using Cons by auto
      then show ?thesis using low m lpw t1 by (simp add: defs d18)
    next
      case high
      then have "arg \<notin> {''1'', ''2'', ''3''}" using Cons by auto
      then show ?thesis using high m lpw t1 by (simp add: defs d18)
    next
      case more
      then have "arg \<notin> {''1'', ''2'', ''3''}" using Cons by auto
      then show ?thesis using more m lpw t1 d19 by (simp add: defs d18)
    qed
  qed
qed

lemma parse_sms_sms_on_input:
  assumes pw: "passw_is s pw" and t: "tables_ok s"
    and rx: "received_sms_text s = pw @ '' SMSonInput!'' @ arg @ NUL # rest" and arg: "NUL \<notin> set arg"
  shows "parse_sms s = Inr (after_sms_on_input s arg)"
proof -
  let ?x = "'' SMSonInput!'' @ arg"
  let ?s1 = "after_sms_on_input s arg"
  have lpw: "length pw = 6" "NUL \<notin> set pw"
    using pw by (simp_all add: passw_is_def)
  have body: "cstr (received_sms_text s) = pw @ ?x"
    using cstr_append_NUL [of "pw @ '' SMSonInput!'' @ arg" rest] lpw arg by (simp add: rx)
  have body1: "cstr (received_sms_text ?s1) = pw @ ?x"
    using body by (simp add: after_sms_on_input_def Let_def)
  have pw1: "passw_is ?s1 pw"
    using pw by (simp add: after_sms_on_input_def passw_is_def Let_def)
  have 1: "cmd_signal (s, r) = Inr (s, r)" for r
    using pw body lpw(1) by (rule cmd_signal_other_verb) simp
  have 2: "cmd_telephone_number (s, r) = Inr (s, r)" for r
    using pw body lpw(1) by (rule cmd_telephone_number_other_verb) simp
  have 3: "cmd_password (s, r) = Inr (s, r)" for r
    using pw body lpw(1) by (rule cmd_password_other_verb) simp
  have 4: "cmd_sms_on_input (s, r) = Inr (?s1, False)" for r
    using pw t rx arg by (rule cmd_sms_on_input_match)
  have 5: "cmd_message_text (?s1, False) = Inr (?s1, False)"
    using pw1 body1 lpw(1) by (rule cmd_message_text_other_verb) simp
  have 6: "cmd_defaults (?s1, False) = Inr (?s1, False)"
    using pw1 body1 lpw(1) by (rule cmd_defaults_other_verb) simp
  show ?thesis
    unfolding parse_sms_def Let_def 1 andThen_Inr 2 3 4 5 6
    by (simp add: cmd_invalid_def)
qed

text \<open>
  Claim C9. An \<^verbatim>\<open>SMSonInput!\<close> command with the correct password in front toggles
  the flag of pin \<open>i\<close>, marks the configuration dirty and stages the confirmation
  exactly when its argument is the single character "1", "2" or "3"; with any other
  argument, such as "1x", it stages "Error. Invalid input number (must be 1-3)" and
  leaves the flags as they were.
\<close>

theorem sms_on_input_command:
  assumes "passw_is s pw" and "tables_ok s" and "sizes_ok s"
    and "received_sms_text s = pw @ '' SMSonInput!'' @ arg @ NUL # rest" and "NUL \<notin> set arg"
  shows "\<exists>s'. parse_sms s = Inr s' \<and>
           multi_stage_handling_type s' = MULTI_STAGE_RECEIVED_PIN_ACTION \<and>
           (if arg \<in> {''1'', ''2'', ''3''}
            then send_sms_on_change s' =
                   (send_sms_on_change s)[of_char (hd arg) - 49 := \<not> send_sms_on_change s ! (of_char (hd arg) - 49)] \<and>
                 send_sms_on_change s' ! (of_char (hd arg) - 49) = (\<not> send_sms_on_change s ! (of_char (hd arg) - 49)) \<and>
                 store_new_flash_settings s' \<and>
                 cstr (multi_stage_message s' ! MULTI_STAGE_RECEIVED_PIN_ACTION) =
                   ''Ok. Input '' @ arg @ '' will '' @
                   (if send_sms_on_change s' ! (of_char (hd arg) - 49) then [] else ''not '') @
                   ''trigger SMS from now on''
            else send_sms_on_change s' = send_sms_on_change s \<and>
                 store_new_flash_settings s' = store_new_flash_settings s \<and>
                 cstr (multi_stage_message s' ! MULTI_STAGE_RECEIVED_PIN_ACTION) =
                   ''Error. Invalid input number (must be 1-3)'')"
proof -
  have len: "length (multi_stage_message s) = MULTI_STAGE_MAX_ACTIONS" "length (send_sms_on_change s) = 3"
    using assms(2,3) by (simp_all add: tables_ok_def sizes_ok_def)
  show ?thesis
  proof (cases "arg \<in> {''1'', ''2'', ''3''}")
    case True
    then show ?thesis
      using len
      by (auto simp: parse_sms_sms_on_input [OF assms(1,2,4,5)] after_sms_on_input_def Let_def)
  next
    case False
    then show ?thesis
      using len
      by (simp add: parse_sms_sms_on_input [OF assms(1,2,4,5)] after_sms_on_input_def)
  qed
qed

lemma andThen_eq_Inr: "andThen m f = Inr y \<longleftrightarrow> (\<exists>x. m = Inr x \<and> f x = Inr y)"
  by (cases m) simp_all


lemma same_dialogue_refl [simp]: "same_dialogue s s"
  by (simp add: same_dialogue_def)

lemma stage_message_dialogue: "stage_message k text s = Inr s' \<Longrightarrow> same_dialogue s s'"
  by (auto simp: stage_message_def andThen_eq_Inr same_dialogue_def)

lemma apply_defaults_dialogue: "apply_defaults s = Inr s' \<Longrightarrow> same_dialogue s s'"
  by (auto simp: apply_defaults_def andThen_eq_Inr same_dialogue_def)

lemma cmd_signal_dialogue: "cmd_signal (s, r) = Inr (s', r') \<Longrightarrow> same_dialogue s s'"
  by (auto simp: cmd_signal_def andThen_eq_Inr same_dialogue_def split: if_splits)

lemma cmd_telephone_number_dialogue: "cmd_telephone_number (s, r) = Inr (s', r') \<Longrightarrow> same_dialogue s s'"
  by (auto simp: cmd_telephone_number_def andThen_eq_Inr Let_def same_dialogue_def
      split: if_splits dest!: stage_message_dialogue)

lemma cmd_password_dialogue: "cmd_password (s, r) = Inr (s', r') \<Longrightarrow> same_dialogue s s'"
  by (auto simp: cmd_password_def andThen_eq_Inr Let_def same_dialogue_def
      split: if_splits dest!: stage_message_dialogue)

lemma cmd_sms_on_input_dialogue: "cmd_sms_on_input (s, r) = Inr (s', r') \<Longrightarrow> same_dialogue s s'"
  by (auto simp: cmd_sms_on_input_def andThen_eq_Inr Let_def same_dialogue_def
      split: if_splits dest!: stage_message_dialogue)

lemma cmd_message_text_dialogue: "cmd_message_text (s, r) = Inr (s', r') \<Longrightarrow> same_dialogue s s'"
  by (auto simp: cmd_message_text_def andThen_eq_Inr Let_def same_dialogue_def
      split: if_splits dest!: stage_message_dialogue)

lemma cmd_defaults_dialogue: "cmd_defaults (s, r) = Inr (s', r') \<Longrightarrow> same_dialogue s s'"
  by (auto simp: cmd_defaults_def andThen_eq_Inr Let_def same_dialogue_def
      split: if_splits dest!: stage_message_dialogue apply_defaults_dialogue)

lemma cmd_invalid_dialogue: "cmd_invalid (s, r) = Inr s' \<Longrightarrow> same_dialogue s s'"
  by (auto simp: cmd_invalid_def same_dialogue_def split: if_splits dest!: stage_message_dialogue)

lemma same_dialogue_trans: "same_dialogue a b \<Longrightarrow> same_dialogue b c \<Longrightarrow> same_dialogue a c"
  by (simp add: same_dialogue_def)

lemma parse_sms_dialogue:
  assumes "parse_sms s = Inr s'"
  shows "same_dialogue s s'"
proof -
  define r0 where "r0 = strncmp_eq (cstr (received_sms_text s)) (cstr (passw s)) (sizeof_passw - 1)"
  from assms obtain s1 r1 where 1: "cmd_signal (s, r0) = Inr (s1, r1)"
    and k1: "andThen (cmd_telephone_number (s1, r1)) (\<lambda>r.
         andThen (cmd_password r) (\<lambda>r.
         andThen (cmd_sms_on_input r) (\<lambda>r.
         andThen (cmd_message_text r) (\<lambda>r.
         andThen (cmd_defaults r) cmd_invalid)))) = Inr s'"
    unfolding parse_sms_def Let_def r0_def [symmetric] by (subst (asm) andThen_eq_Inr) auto
  from k1 obtain s2 r2 where 2: "cmd_telephone_number (s1, r1) = Inr (s2, r2)"
    and k2: "andThen (cmd_password (s2, r2)) (\<lambda>r.
         andThen (cmd_sms_on_input r) (\<lambda>r.
         andThen (cmd_message_text r) (\<lambda>r.
         andThen (cmd_defaults r) cmd_invalid))) = Inr s'"
    by (subst (asm) andThen_eq_Inr) auto
  from k2 obtain s3 r3 where 3: "cmd_password (s2, r2) = Inr (s3, r3)"
    and k3: "andThen (cmd_sms_on_input (s3, r3)) (\<lambda>r.
         andThen (cmd_message_text r) (\<lambda>r.
         andThen (cmd_defaults r) cmd_invalid)) = Inr s'"
    by (subst (asm) andThen_eq_Inr) auto
  from k3 obtain s4 r4 where 4: "cmd_sms_on_input (s3, r3) = Inr (s4, r4)"
    and k4: "andThen (cmd_message_text (s4, r4)) (\<lambda>r.
         andThen (cmd_defaults r) cmd_invalid) = Inr s'"
    by (subst (asm) andThen_eq_Inr) auto
  from k4 obtain s5 r5 where 5: "cmd_message_text (s4, r4) = Inr (s5, r5)"
    and k5: "andThen (cmd_defaults (s5, r5)) cmd_invalid = Inr s'"
    by (subst (asm) andThen_eq_Inr) auto
  from k5 obtain s6 r6 where 6: "cmd_defaults (s5, r5) = Inr (s6, r6)"
    and 7: "cmd_invalid (s6, r6) = Inr s'"
    by (subst (asm) andThen_eq_Inr) auto
  have "same_dialogue s s1" using 1 by (rule cmd_signal_dialogue)
  moreover have "same_dialogue s1 s2" using 2 by (rule cmd_telephone_number_dialogue)
  moreover have "same_dialogue s2 s3" using 3 by (rule cmd_password_dialogue)
  moreover have "same_dialogue s3 s4" using 4 by (rule cmd_sms_on_input_dialogue)
  moreover have "same_dialogue s4 s5" using 5 by (rule cmd_message_text_dialogue)
  moreover have "same_dialogue s5 s6" using 6 by (rule cmd_defaults_dialogue)
  moreover have "same_dialogue s6 s'" using 7 by (rule cmd_invalid_dialogue)
  ultimately show ?thesis by (simp add: same_dialogue_def)
qed

lemma tables_ok_factory: "tables_ok factory"
  by (simp add: tables_ok_def factory_def power_on_def init_loop_def list_all_iff)

lemma sizes_ok_factory: "sizes_ok factory"
  using valid_config_factory by (simp add: valid_config_def)

lemma passw_is_factory: "passw_is factory ''674358''"
  by (simp add: passw_is_def factory_def power_on_def init_loop_def)

lemma sms_state_facts:
  assumes "length body < max_str_l"
  shows "tables_ok (sms_state body)" "sizes_ok (sms_state body)" "passw_is (sms_state body) ''674358''"
  using assms tables_ok_factory sizes_ok_factory passw_is_factory
  by (simp_all add: sms_state_def tables_ok_def sizes_ok_def passw_is_def)

text \<open>
  Claim C3. When the first six characters of the received SMS body differ from the
  current password, the parser returns the state it was given: no configuration field,
  no dirty flag, no staged reply and no pending action changes.
\<close>

theorem wrong_password_ignored:
  assumes "passw_is s pw" and "take 6 (cstr (received_sms_text s)) \<noteq> pw"
  shows "parse_sms s = Inr s"
  using assms by (rule parse_sms_wrong_password)

theorem wrong_password_ignored_witness:
  "passw_is (sms_state ''000000 Defaults!'') ''674358'' \<and>
   take 6 (cstr (received_sms_text (sms_state ''000000 Defaults!''))) \<noteq> ''674358'' \<and>
   parse_sms (sms_state ''000000 Defaults!'') = Inr (sms_state ''000000 Defaults!'')"
proof -
  have 1: "passw_is (sms_state ''000000 Defaults!'') ''674358''"
    by (rule sms_state_facts) simp
  have 2: "take 6 (cstr (received_sms_text (sms_state ''000000 Defaults!''))) \<noteq> ''674358''"
    by (simp add: sms_state_def)
  show ?thesis using wrong_password_ignored [OF 1 2] 1 2 by simp
qed

theorem password_command_witness:
  "passw_is (sms_state ''674358 Password!abcde'') ''674358'' \<and>
   tables_ok (sms_state ''674358 Password!abcde'') \<and>
   (\<exists>s'. parse_sms (sms_state ''674358 Password!abcde'') = Inr s' \<and>
         multi_stage_handling_type s' = MULTI_STAGE_RECEIVED_PW \<and>
         passw s' = passw (sms_state ''674358 Password!abcde'') \<and>
         cstr (multi_stage_message s' ! MULTI_STAGE_RECEIVED_PW) =
           ''Error. Invalid password (needs to be 6 characters)'') \<and>
   passw_is (sms_state ''674358 Password!abcdef'') ''674358'' \<and>
   tables_ok (sms_state ''674358 Password!abcdef'') \<and>
   (\<exists>s'. parse_sms (sms_state ''674358 Password!abcdef'') = Inr s' \<and>
         multi_stage_handling_type s' = MULTI_STAGE_RECEIVED_PW \<and>
         cstr (passw s') = ''abcdef'' \<and> store_new_flash_settings s' \<and>
         cstr (multi_stage_message s' ! MULTI_STAGE_RECEIVED_PW) = ''Ok. Changed password'')"
proof -
  have 1: "passw_is (sms_state ''674358 Password!abcde'') ''674358''"
       "tables_ok (sms_state ''674358 Password!abcde'')"
    by (rule sms_state_facts, simp)+
  have 2: "received_sms_text (sms_state ''674358 Password!abcde'') =
             ''674358'' @ '' Password!'' @ ''abcde'' @ NUL # replicate 178 NUL"
    by (simp add: sms_state_def)
  have 3: "passw_is (sms_state ''674358 Password!abcdef'') ''674358''"
       "tables_ok (sms_state ''674358 Password!abcdef'')"
    by (rule sms_state_facts, simp)+
  have 4: "received_sms_text (sms_state ''674358 Password!abcdef'') =
             ''674358'' @ '' Password!'' @ ''abcdef'' @ NUL # replicate 177 NUL"
    by (simp add: sms_state_def)
  show ?thesis
    using password_command [OF 1 2] password_command [OF 3 4] 1 3 by simp
qed

theorem sms_on_input_command_witness:
  "passw_is (sms_state ''674358 SMSonInput!2'') ''674358'' \<and>
   tables_ok (sms_state ''674358 SMSonInput!2'') \<and> sizes_ok (sms_state ''674358 SMSonInput!2'') \<and>
   (\<exists>s'. parse_sms (sms_state ''674358 SMSonInput!2'') = Inr s' \<and>
         multi_stage_handling_type s' = MULTI_STAGE_RECEIVED_PIN_ACTION \<and>
         send_sms_on_change s' = [True, False, True] \<and> store_new_flash_settings s' \<and>
         cstr (multi_stage_message s' ! MULTI_STAGE_RECEIVED_PIN_ACTION) =
           ''Ok. Input 2 will not trigger SMS from now on'') \<and>
   passw_is (sms_state ''674358 SMSonInput!1x'') ''674358'' \<and>
   tables_ok (sms_state ''674358 SMSonInput!1x'') \<and> sizes_ok (sms_state ''674358 SMSonInput!1x'') \<and>
   (\<exists>s'. parse_sms (sms_state ''674358 SMSonInput!1x'') = Inr s' \<and>
         multi_stage_handling_type s' = MULTI_STAGE_RECEIVED_PIN_ACTION \<and>
         send_sms_on_change s' = [True, True, True] \<and>
         cstr (multi_stage_message s' ! MULTI_STAGE_RECEIVED_PIN_ACTION) =
           ''Error. Invalid input number (must be 1-3)'')"
proof -
  have 1: "passw_is (sms_state ''674358 SMSonInput!2'') ''674358''"
       "tables_ok (sms_state ''674358 SMSonInput!2'')" "sizes_ok (sms_state ''674358 SMSonInput!2'')"
    by (rule sms_state_facts, simp)+
  have 2: "received_sms_text (sms_state ''674358 SMSonInput!2'') =
             ''674358'' @ '' SMSonInput!'' @ ''2'' @ NUL # replicate 180 NUL"
    by (simp add: sms_state_def)
  have 3: "passw_is (sms_state ''674358 SMSonInput!1x'') ''674358''"
       "tables_ok (sms_state ''674358 SMSonInput!1x'')" "sizes_ok (sms_state ''674358 SMSonInput!1x'')"
    by (rule sms_state_facts, simp)+
  have 4: "received_sms_text (sms_state ''674358 SMSonInput!1x'') =
             ''674358'' @ '' SMSonInput!'' @ ''1x'' @ NUL # replicate 179 NUL"
    by (simp add: sms_state_def)
  have 5: "send_sms_on_change (sms_state body) = [True, True, True]" for body
    by (simp add: sms_state_def factory_def init_loop_def)
  show ?thesis
    using sms_on_input_command [OF 1 2] sms_on_input_command [OF 3 4] 1 3
    by (auto simp: 5)
qed














section \<open>The message classifier\<close>

lemma cstr_length_le: "length (cstr buf) \<le> length buf"
  unfolding cstr_def by (rule length_takeWhile_le)

lemma store_response_ok:
  assumes "tables_ok s" "k < MAX_MSG" "length str < max_str_l"
  shows "store_response k str s =
           Inr (s\<lparr>received := (received s)[k := True],
                  received_response := (received_response s)
                    [k := str @ NUL # drop (Suc (length str)) (received_response s ! k)]\<rparr>)"
proof -
  have "length (received_response s ! k) = max_str_l"
    using assms(1,2) by (simp add: tables_ok_def list_all_length)
  then show ?thesis using assms(3) by (simp add: store_response_def strcpy_def)
qed

lemma ok_not_error: "take 2 x = ''OK'' \<Longrightarrow> take 5 x \<noteq> ''ERROR''"
proof
  assume "take 2 x = ''OK''" "take 5 x = ''ERROR''"
  then have "take 2 (take 5 x) = take 2 ''ERROR''" by simp
  with \<open>take 2 x = ''OK''\<close> show False by simp
qed

text \<open>
  Claim C5, as the code has it. A line of fewer than 200 bytes is marked OK exactly when
  the line begins with the two characters "OK", and ERROR exactly when it begins with
  "ERROR": the comparisons are \<^verbatim>\<open>strncmp\<close> over the length of the keyword, so whatever
  follows the keyword does not matter.
\<close>

theorem classify_ok_error_prefix:
  assumes "tables_ok s" and "length line < max_str_l"
  shows "\<exists>s'. classify line s = Inr s' \<and>
           (received s' ! OK \<longleftrightarrow> received s ! OK \<or> take 2 (cstr line) = ''OK'') \<and>
           (received s' ! ERROR \<longleftrightarrow> received s ! ERROR \<or> take 5 (cstr line) = ''ERROR'')"
proof -
  have len: "length (cstr line) < max_str_l"
    using assms(2) cstr_length_le [of line] by simp
  have rec: "length (received s) = MAX_MSG" "length (received_sms_text s) = max_str_l"
    using assms(1) by (simp_all add: tables_ok_def)
  have sr: "store_response k (cstr line) s =
           Inr (s\<lparr>received := (received s)[k := True],
                  received_response := (received_response s)
                    [k := cstr line @ NUL # drop (Suc (length (cstr line))) (received_response s ! k)]\<rparr>)"
    if "k < MAX_MSG" for k
    using assms(1) that len by (rule store_response_ok)
  show ?thesis
  proof (cases "line = []")
    case True
    then show ?thesis by (simp add: classify_def)
  next
    case False
    then show ?thesis
      using rec len ok_not_error [of "cstr line"]
      by (simp add: classify_def Let_def strncmp_eq_take sr strcpy_def)
  qed
qed

theorem classify_ok_error_prefix_witness:
  "tables_ok factory \<and> length ''OK'' < max_str_l \<and> length ''ERROR'' < max_str_l \<and>
   length ''+CSQ: 17,99'' < max_str_l \<and>
   (\<exists>s'. classify ''OK'' factory = Inr s' \<and> received s' ! OK \<and> \<not> received s' ! ERROR) \<and>
   (\<exists>s'. classify ''ERROR'' factory = Inr s' \<and> \<not> received s' ! OK \<and> received s' ! ERROR) \<and>
   (\<exists>s'. classify ''+CSQ: 17,99'' factory = Inr s' \<and> \<not> received s' ! OK \<and> \<not> received s' ! ERROR)"
proof -
  have t: "tables_ok factory"
    by (simp add: tables_ok_def factory_def power_on_def init_loop_def list_all_iff)
  have r: "\<not> received factory ! OK" "\<not> received factory ! ERROR"
    by (simp_all add: factory_def init_loop_def)
  show ?thesis
    using classify_ok_error_prefix [OF t, of "''OK''"] classify_ok_error_prefix [OF t, of "''ERROR''"]
      classify_ok_error_prefix [OF t, of "''+CSQ: 17,99''"] t r
    by simp
qed

theorem classify_exact_counterexample:
  "classify ''OKAY'' factory = Inr (factory\<lparr>received := (received factory)[OK := True]\<rparr>) \<and>
   received (factory\<lparr>received := (received factory)[OK := True]\<rparr>) ! OK \<and>
   cstr ''OKAY'' \<noteq> ''OK'' \<and>
   classify ''ERROR: 4'' factory = Inr (factory\<lparr>received := (received factory)[ERROR := True]\<rparr>) \<and>
   received (factory\<lparr>received := (received factory)[ERROR := True]\<rparr>) ! ERROR \<and>
   cstr ''ERROR: 4'' \<noteq> ''ERROR''"
  by (simp add: classify_def strncmp_eq_take factory_def init_loop_def)

section \<open>Timeouts\<close>

lemma check_timeout_fields:
  "initiate_time (check_timeout now s i) = initiate_time s"
  "length (awaiting_response (check_timeout now s i)) = length (awaiting_response s)"
  by (simp_all add: check_timeout_def)

lemma check_timeout_awaiting:
  assumes "i < length (awaiting_response s)"
  shows "awaiting_response (check_timeout now s i) ! k =
           (if k = i then awaiting_response s ! k \<and> \<not> expired now s k else awaiting_response s ! k)"
  using assms by (auto simp: check_timeout_def expired_def)

lemma check_timeout_slot:
  "multi_stage_handling_type (check_timeout now s i) =
     (if i = CMGR \<and> awaiting_response s ! CMGR \<and> expired now s CMGR then 0
      else multi_stage_handling_type s)"
  by (simp add: check_timeout_def expired_def)

lemma expired_check_timeout [simp]: "expired now (check_timeout now s i) k = expired now s k"
  by (simp add: expired_def check_timeout_fields)

lemma foldl_check_timeout:
  assumes "distinct ks" "\<forall>i\<in>set ks. i < length (awaiting_response s)"
  shows "initiate_time (foldl (check_timeout now) s ks) = initiate_time s \<and>
         length (awaiting_response (foldl (check_timeout now) s ks)) = length (awaiting_response s) \<and>
         (\<forall>k. awaiting_response (foldl (check_timeout now) s ks) ! k =
              (if k \<in> set ks then awaiting_response s ! k \<and> \<not> expired now s k
               else awaiting_response s ! k)) \<and>
         multi_stage_handling_type (foldl (check_timeout now) s ks) =
           (if CMGR \<in> set ks \<and> awaiting_response s ! CMGR \<and> expired now s CMGR then 0
            else multi_stage_handling_type s)"
  using assms
proof (induction ks arbitrary: s)
  case Nil
  then show ?case by simp
next
  case (Cons i ks)
  let ?s1 = "check_timeout now s i"
  have i: "i < length (awaiting_response s)" "i \<notin> set ks" using Cons.prems by auto
  have "distinct ks" "\<forall>j\<in>set ks. j < length (awaiting_response ?s1)"
    using Cons.prems by (auto simp: check_timeout_fields)
  note IH = Cons.IH [OF this]
  have aw: "awaiting_response ?s1 ! k =
           (if k = i then awaiting_response s ! k \<and> \<not> expired now s k else awaiting_response s ! k)" for k
    using i(1) by (rule check_timeout_awaiting)
  let ?f = "foldl (check_timeout now) ?s1 ks"
  have A: "initiate_time ?f = initiate_time s" "length (awaiting_response ?f) = length (awaiting_response s)"
    using IH by (simp_all add: check_timeout_fields)
  have C: "awaiting_response ?f ! k =
             (if k \<in> set (i # ks) then awaiting_response s ! k \<and> \<not> expired now s k
              else awaiting_response s ! k)" for k
  proof -
    have "awaiting_response ?f ! k =
            (if k \<in> set ks then awaiting_response ?s1 ! k \<and> \<not> expired now s k
             else awaiting_response ?s1 ! k)"
      using IH by simp
    then show ?thesis using i(2) by (auto simp: aw)
  qed
  have D: "multi_stage_handling_type ?f =
           (if CMGR \<in> set (i # ks) \<and> awaiting_response s ! CMGR \<and> expired now s CMGR then 0
            else multi_stage_handling_type s)"
  proof -
    have d: "multi_stage_handling_type ?f =
           (if CMGR \<in> set ks \<and> awaiting_response ?s1 ! CMGR \<and> expired now s CMGR then 0
            else multi_stage_handling_type ?s1)"
      using IH by simp
    show ?thesis
    proof (cases "i = CMGR")
      case True
      then have "CMGR \<notin> set ks" using i(2) by simp
      then show ?thesis using True d by (simp add: check_timeout_slot)
    next
      case False
      then show ?thesis using d by (simp add: check_timeout_slot aw)
    qed
  qed
  show ?case
    unfolding foldl_Cons using A C D by blast
qed

text \<open>
  Claim C8. After the timeout loop, for every kind \<open>k\<close> from OK to \<^verbatim>\<open>CLCC\<close> the flag
  \<^verbatim>\<open>awaiting_response[k]\<close> is set exactly when it was set before and the time since
  \<^verbatim>\<open>initiate_time[k]\<close> does not exceed the deadline, 60 s for OK and 9 s for the others;
  and the pending action is reset to 0 exactly when \<^verbatim>\<open>+CMGR\<close> was awaited and has timed
  out, and is otherwise as before. Index 11 of the array is the busy flag, which the
  loop of lines 538-540 recomputes and no deadline clears.
\<close>

theorem timeouts_clear_awaiting:
  assumes "tables_ok s" and "k < MAX_MSG - 1"
  shows "awaiting_response (check_timeouts inp s) ! k =
           (awaiting_response s ! k \<and>
            \<not> current_time inp - initiate_time s ! k > (if k = OK then 60000000 else 9000000)) \<and>
         multi_stage_handling_type (check_timeouts inp s) =
           (if awaiting_response s ! CMGR \<and> current_time inp - initiate_time s ! CMGR > 9000000
            then 0 else multi_stage_handling_type s) \<and>
         initiate_time (check_timeouts inp s) = initiate_time s"
proof -
  have "distinct [0..<MAX_MSG - 1]" "\<forall>i\<in>set [0..<MAX_MSG - 1]. i < length (awaiting_response s)"
    using assms(1) by (simp_all add: tables_ok_def)
  from foldl_check_timeout [OF this, of "current_time inp"] assms(2)
  show ?thesis
    by (simp add: check_timeouts_def expired_def)
qed

theorem timeouts_clear_awaiting_witness:
  "tables_ok both_awaited \<and> CMGR < MAX_MSG - 1 \<and> OK < MAX_MSG - 1 \<and>
   \<not> awaiting_response (check_timeouts (idle_tick 10000000) both_awaited) ! CMGR \<and>
   awaiting_response (check_timeouts (idle_tick 10000000) both_awaited) ! OK \<and>
   multi_stage_handling_type (check_timeouts (idle_tick 10000000) both_awaited) = 0 \<and>
   \<not> awaiting_response (check_timeouts (idle_tick 61000000) (both_awaited\<lparr>awaiting_response :=
       (replicate MAX_MSG False)[OK := True, UNKNOWN := True]\<rparr>)) ! OK \<and>
   multi_stage_handling_type (check_timeouts (idle_tick 61000000) (both_awaited\<lparr>awaiting_response :=
       (replicate MAX_MSG False)[OK := True, UNKNOWN := True]\<rparr>)) = MULTI_STAGE_RECEIVED_DEFAULTS"
proof -
  have t: "tables_ok both_awaited"
    by (simp add: both_awaited_def tables_ok_def factory_def init_loop_def power_on_def list_all_iff)
  then have t2: "tables_ok (both_awaited\<lparr>awaiting_response := (replicate MAX_MSG False)[OK := True, UNKNOWN := True]\<rparr>)"
    by (simp add: tables_ok_def)
  have f: "initiate_time both_awaited = replicate MAX_MSG 0"
    "awaiting_response both_awaited = (replicate MAX_MSG False)[OK := True, CMGR := True, UNKNOWN := True]"
    "multi_stage_handling_type both_awaited = MULTI_STAGE_RECEIVED_DEFAULTS"
    by (simp_all add: both_awaited_def factory_def init_loop_def)
  show ?thesis
    using timeouts_clear_awaiting [OF t, of CMGR "idle_tick 10000000"]
      timeouts_clear_awaiting [OF t, of OK "idle_tick 10000000"]
      timeouts_clear_awaiting [OF t2, of OK "idle_tick 61000000"] t
    by (simp add: f idle_tick_def)
qed

section \<open>The input scan\<close>

lemma pins_list: "[0..<GPIO_NUMBER_PINS] = [0, 1, 2]"
  by (simp add: upt_rec)













section \<open>A run of the loop in which the OK of a read-out is lost\<close>

lemma factory_fields:
  "multi_stage_handling_type factory = 0"
  "multi_stage_message factory = replicate MULTI_STAGE_MAX_ACTIONS (replicate max_str_l (CHR 0xAA))"
  "received factory = replicate MAX_MSG False"
  "received_response factory = replicate MAX_MSG (replicate max_str_l (CHR 0xAA))"
  "received_sms_text factory = replicate max_str_l (CHR 0xAA)"
  "last_status factory = [False, False, False]"
  "last_status_check_time factory = 0"
  "last_passw_reset_time factory = 0"
  "last_passw_reset_check_time factory = 0"
  "awaiting_response factory = replicate MAX_MSG False"
  "received_sms factory = False"
  "last_creg_check_time factory = 0"
  "last_cpsi_check_time factory = 0"
  "last_cmgd_time factory = 0"
  "initiate_time factory = replicate MAX_MSG 0"
  "store_new_flash_settings factory = False"
  "passw factory = ''674358'' @ [NUL]"
  "tel_no factory = ''+447700900000'' @ replicate 37 NUL"
  "send_sms_on_change factory = [True, True, True]"
  "uart_tx factory = []"
  by (simp_all add: factory_def init_loop_def power_on_def)

lemma upt_11: "[0..<11] = [0, 1, 2, 3, 4, 5, 6, 7, 8, 9, 10::nat]"
  by (simp add: upt_rec)

lemma skips:
  "current_time inp - last_cpsi_check_time s \<le> CPSI_CHECK_INTERVAL_US \<Longrightarrow> cpsi_check inp s = s"
  "\<not> received s ! CPSI \<Longrightarrow> cpsi_response inp s = Inr s"
  "current_time inp - last_creg_check_time s \<le> CREG_CHECK_INTERVAL_US \<Longrightarrow> creg_check inp s = s"
  "\<not> received s ! CREG \<Longrightarrow> creg_response inp s = s"
  "\<not> received s ! CMTI \<Longrightarrow> process_cmti inp s = Inr s"
  "\<not> received s ! CLCC \<Longrightarrow> process_clcc inp s = s"
  "\<not> received s ! CMGR \<Longrightarrow> \<not> received_sms s \<Longrightarrow> process_cmgr now s = Inr s"
  "received s ! CMGR \<Longrightarrow> awaiting_response s ! CMGR \<Longrightarrow> \<not> received_sms s \<Longrightarrow> process_cmgr now s = Inr s"
  "\<not> received s ! CSQ \<Longrightarrow> process_csq inp s = Inr s"
  "current_time inp - last_cmgd_time s \<le> CMGD_INTERVAL_US \<Longrightarrow> cmgd_check inp s = s"
  "\<not> received s ! CMGS \<Longrightarrow> process_cmgs inp s = s"
  "\<not> received s ! OK \<Longrightarrow> process_ok inp s = Inr s"
  "\<not> received s ! UNKNOWN \<Longrightarrow> process_unknown s = s"
  "awaiting_response s ! UNKNOWN \<Longrightarrow> check_gpio inp s = Inr s"
  "awaiting_response s ! UNKNOWN \<Longrightarrow> check_pw_reset inp s = Inr s"
  "awaiting_response s ! UNKNOWN \<Longrightarrow> save_if_needed s = Inr s"
  "\<not> store_new_flash_settings s \<Longrightarrow> save_if_needed s = Inr s"
  by (simp_all add: cpsi_check_def cpsi_response_def creg_check_def creg_response_def process_cmti_def
      process_clcc_def process_cmgr_def process_csq_def cmgd_check_def process_cmgs_def process_ok_def
      process_unknown_def check_gpio_def check_pw_reset_def save_if_needed_def)

lemma collect_awaiting_eval:
  "collect_awaiting s =
     s\<lparr>awaiting_response := (awaiting_response s)[UNKNOWN :=
         awaiting_response s ! 0 \<or> awaiting_response s ! 1 \<or> awaiting_response s ! 2 \<or>
         awaiting_response s ! 3 \<or> awaiting_response s ! 4 \<or> awaiting_response s ! 5 \<or>
         awaiting_response s ! 6 \<or> awaiting_response s ! 7 \<or> awaiting_response s ! 8 \<or>
         awaiting_response s ! 9 \<or> awaiting_response s ! 10]\<rparr>"
  by (simp add: collect_awaiting_def upt_11)

lemma foldl_check_timeout_none:
  "(\<And>i. i \<in> set ks \<Longrightarrow>
      \<not> (now - initiate_time s ! i > (if i = OK then 60000000 else 9000000) \<and> awaiting_response s ! i)) \<Longrightarrow>
   foldl (check_timeout now) s ks = s"
proof (induction ks)
  case Nil
  then show ?case by simp
next
  case (Cons i ks)
  have "check_timeout now s i = s"
    using Cons.prems [of i] by (auto simp: check_timeout_def)
  then show ?case using Cons by simp
qed

lemma check_timeouts_none:
  assumes "\<forall>i\<in>set [0, 1, 2, 3, 4, 5, 6, 7, 8, 9, 10].
     \<not> (current_time inp - initiate_time s ! i > (if i = OK then 60000000 else 9000000) \<and> awaiting_response s ! i)"
  shows "check_timeouts inp s = s"
  unfolding check_timeouts_def
  using assms by (intro foldl_check_timeout_none) (auto simp: upt_11)

lemma upt_12: "[0..<12] = [0, 1, 2, 3, 4, 5, 6, 7, 8, 9, 10, 11::nat]"
  by (simp add: upt_rec)

lemmas trace_simps = loop_iteration_def receive_def classify_def strncmp_eq_take store_response_def strcpy_def
     collect_awaiting_eval skips check_timeouts_none process_cmti_def c_str_def sprintf_local_def Let_def
     write_command_def await_def line_tick_def idle_tick_def factory_fields
     process_cmgr_def parse_sms_def cmd_signal_def cmd_telephone_number_def cmd_password_def
     cmd_sms_on_input_def cmd_message_text_def cmd_defaults_def cmd_invalid_def stage_message_def
     sizeof_lit_def check_gpio_def check_pw_reset_def scan_pin_def upt_12

lemma check_timeouts_ok_only:
  assumes "awaiting_response s ! OK \<and> current_time inp - initiate_time s ! OK > 60000000"
    and "\<forall>i\<in>set [1, 2, 3, 4, 5, 6, 7, 8, 9, 10].
     \<not> (current_time inp - initiate_time s ! i > (if i = OK then 60000000 else 9000000) \<and> awaiting_response s ! i)"
    and "length (awaiting_response s) = MAX_MSG"
  shows "check_timeouts inp s = s\<lparr>awaiting_response := (awaiting_response s)[OK := False]\<rparr>"
proof -
  let ?s1 = "s\<lparr>awaiting_response := (awaiting_response s)[OK := False]\<rparr>"
  have 1: "check_timeout (current_time inp) s OK = ?s1"
    using assms(1) by (simp add: check_timeout_def)
  have 2: "foldl (check_timeout (current_time inp)) ?s1 [1, 2, 3, 4, 5, 6, 7, 8, 9, 10] = ?s1"
    using assms(2,3) by (intro foldl_check_timeout_none) auto
  have 3: "[0..<MAX_MSG - 1] = OK # [1, 2, 3, 4, 5, 6, 7, 8, 9, 10]"
    by (simp add: upt_11)
  show ?thesis
    unfolding check_timeouts_def 3 by (subst foldl_Cons) (simp only: 1 2)
qed

text \<open>
  Claim C7 at a failing run. From the idle device with the default configuration: the
  modem announces an SMS, the read-out delivers header and body "674358 Status?", and the
  OK that ends the read-out never arrives. After the 60 s timeout the pending action is
  still \<^verbatim>\<open>MULTI_STAGE_INVALID_COMMAND\<close> and not one of the twelve awaiting flags is set.
\<close>

theorem pending_action_outlives_ok_timeout:
  "pending_and_awaited (run_loop lost_ok_trace factory) =
     Some (MULTI_STAGE_INVALID_COMMAND,
           [False, False, False, False, False, False, False, False, False, False, False, False])"
  by (simp add: lost_ok_trace_def trace_simps pending_and_awaited_def pins_list check_timeouts_ok_only)

lemma stale_reply_sent:
  "sent_to_modem (run_loop stale_reply_trace factory) =
     [''AT+CMGR=1'' @ [CR], ''AT+CHUP'' @ [CR],
      ''AT+CMGS='' @ [DQUOTE] @ ''+447700900000'' @ [DQUOTE, CR], ''Invalid instruction'' @ [CTRL_Z]]"
  by (simp add: stale_reply_trace_def lost_ok_trace_def trace_simps sent_to_modem_def pins_list
      check_timeouts_ok_only process_clcc_def process_ok_def send_sms_def)

section \<open>The wait for OK across the blocks of the loop\<close>

lemma steady_refl: "flags_sized s \<Longrightarrow> steady now s s"
  by (simp add: steady_def)

lemma steady_trans [trans]: "steady now a b \<Longrightarrow> steady now b c \<Longrightarrow> steady now a c"
  by (auto simp: steady_def)

lemma cpsi_check_steady: "flags_sized s \<Longrightarrow> steady (current_time inp) s (cpsi_check inp s)"
  by (auto simp: cpsi_check_def steady_def flags_sized_def await_def write_command_def nth_list_update)

lemma creg_check_steady: "flags_sized s \<Longrightarrow> steady (current_time inp) s (creg_check inp s)"
  by (auto simp: creg_check_def steady_def flags_sized_def await_def write_command_def nth_list_update)

lemma creg_response_steady: "flags_sized s \<Longrightarrow> steady (current_time inp) s (creg_response inp s)"
  by (auto simp: creg_response_def steady_def flags_sized_def await_def nth_list_update)

lemma process_clcc_steady: "flags_sized s \<Longrightarrow> steady (current_time inp) s (process_clcc inp s)"
  by (auto simp: process_clcc_def steady_def flags_sized_def await_def write_command_def nth_list_update)

lemma cmgd_check_steady: "flags_sized s \<Longrightarrow> steady (current_time inp) s (cmgd_check inp s)"
  by (auto simp: cmgd_check_def steady_def flags_sized_def await_def write_command_def nth_list_update)

lemma process_cmgs_steady: "flags_sized s \<Longrightarrow> steady (current_time inp) s (process_cmgs inp s)"
  by (auto simp: process_cmgs_def steady_def flags_sized_def await_def nth_list_update)

lemma process_unknown_steady: "flags_sized s \<Longrightarrow> steady now s (process_unknown s)"
  by (auto simp: process_unknown_def steady_def flags_sized_def nth_list_update)

lemma stage_message_steady':
  "stage_message k text s = Inr s' \<Longrightarrow>
   awaiting_response s' = awaiting_response s \<and> initiate_time s' = initiate_time s \<and>
   received s' = received s \<and> multi_stage_handling_type s' = multi_stage_handling_type s"
  by (auto simp: stage_message_def andThen_eq_Inr)

lemma cpsi_response_steady:
  "flags_sized s \<Longrightarrow> cpsi_response inp s = Inr s' \<Longrightarrow> steady (current_time inp) s s'"
  by (auto simp: cpsi_response_def Let_def andThen_eq_Inr steady_def flags_sized_def await_def
      nth_list_update split: if_splits dest!: stage_message_steady')

lemma process_cmti_steady:
  "flags_sized s \<Longrightarrow> process_cmti inp s = Inr s' \<Longrightarrow> steady (current_time inp) s s'"
  by (auto simp: process_cmti_def andThen_eq_Inr steady_def flags_sized_def await_def write_command_def
      nth_list_update split: if_splits)

lemma process_csq_steady:
  "flags_sized s \<Longrightarrow> process_csq inp s = Inr s' \<Longrightarrow> steady (current_time inp) s s'"
  by (auto simp: process_csq_def Let_def andThen_eq_Inr steady_def flags_sized_def await_def
      nth_list_update split: if_splits dest!: stage_message_steady')

lemma process_cmgr_steady:
  assumes "flags_sized s" "process_cmgr now s = Inr s'"
  shows "steady now s s'"
proof (cases "received s ! CMGR \<and> awaiting_response s ! CMGR \<and> received_sms s")
  case True
  let ?s0 = "await OK now
               (s\<lparr>received := (received s)[CMGR := False],
                  awaiting_response := (awaiting_response s)[CMGR := False],
                  received_sms := False\<rparr>)"
  have "parse_sms ?s0 = Inr s'" using assms(2) True by (simp add: process_cmgr_def)
  then have "same_dialogue ?s0 s'" by (rule parse_sms_dialogue)
  then show ?thesis
    using assms(1) by (auto simp: same_dialogue_def steady_def flags_sized_def await_def nth_list_update)
next
  case False
  then show ?thesis
    using assms by (auto simp: process_cmgr_def steady_def flags_sized_def split: if_splits)
qed


lemma collect_awaiting_steady:
  assumes "flags_sized s"
  shows "awaiting_response s ! OK \<Longrightarrow> awaiting_response (collect_awaiting s) ! UNKNOWN"
    and "flags_sized (collect_awaiting s)"
    and "awaiting_response (collect_awaiting s) ! OK = awaiting_response s ! OK"
    and "initiate_time (collect_awaiting s) = initiate_time s"
    and "multi_stage_handling_type (collect_awaiting s) = multi_stage_handling_type s"
    and "received (collect_awaiting s) = received s"
  using assms by (simp_all add: collect_awaiting_def flags_sized_def upt_11)

lemma receive_frame:
  assumes "receive inp s = Inr s'"
  shows "awaiting_response s' = awaiting_response s" "initiate_time s' = initiate_time s"
    "multi_stage_handling_type s' = multi_stage_handling_type s"
    "\<not> received s ! OK \<Longrightarrow> \<forall>line. rx_line inp = Some line \<longrightarrow> take 2 (cstr line) \<noteq> ''OK'' \<Longrightarrow>
     \<not> received s' ! OK"
  using assms
  by (auto simp: receive_def classify_def Let_def store_response_def andThen_eq_Inr strncmp_eq_take
      nth_list_update_neq split: option.splits if_splits)

lemma process_ok_frame:
  assumes "flags_sized s" "process_ok inp s = Inr s'"
  shows "flags_sized s'"
    and "multi_stage_handling_type s' = 0 \<or>
         (multi_stage_handling_type s' = multi_stage_handling_type s \<and>
          awaiting_response s' ! OK = awaiting_response s ! OK)"
    and "\<not> received s ! OK \<Longrightarrow> awaiting_response s' = awaiting_response s \<and> initiate_time s' = initiate_time s"
    and "initiate_time s' ! OK = initiate_time s ! OK"
  using assms
  by (auto simp: process_ok_def Let_def andThen_eq_Inr flags_sized_def await_def write_command_def
      send_sms_def nth_list_update split: if_splits)

lemma check_timeouts_frame:
  assumes "flags_sized s"
  shows "flags_sized (check_timeouts inp s)"
    and "awaiting_response (check_timeouts inp s) ! OK =
           (awaiting_response s ! OK \<and> \<not> current_time inp - initiate_time s ! OK > 60000000)"
    and "awaiting_response (check_timeouts inp s) ! UNKNOWN = awaiting_response s ! UNKNOWN"
    and "multi_stage_handling_type (check_timeouts inp s) = 0 \<or>
         multi_stage_handling_type (check_timeouts inp s) = multi_stage_handling_type s"
proof -
  have d: "distinct [0..<MAX_MSG - 1]" "\<forall>i\<in>set [0..<MAX_MSG - 1]. i < length (awaiting_response s)"
    using assms by (simp_all add: flags_sized_def)
  note f = foldl_check_timeout [OF d, of "current_time inp"]
  show "flags_sized (check_timeouts inp s)"
    using f assms by (simp add: check_timeouts_def flags_sized_def)
  show "awaiting_response (check_timeouts inp s) ! OK =
           (awaiting_response s ! OK \<and> \<not> current_time inp - initiate_time s ! OK > 60000000)"
    using f by (simp add: check_timeouts_def expired_def)
  show "awaiting_response (check_timeouts inp s) ! UNKNOWN = awaiting_response s ! UNKNOWN"
    using f by (simp add: check_timeouts_def)
  show "multi_stage_handling_type (check_timeouts inp s) = 0 \<or>
         multi_stage_handling_type (check_timeouts inp s) = multi_stage_handling_type s"
    using f by (simp add: check_timeouts_def)
qed

lemma send_sms_frame:
  "send_sms tel message s = Inr s' \<Longrightarrow>
   awaiting_response s' = awaiting_response s \<and> initiate_time s' = initiate_time s \<and>
   received s' = received s \<and> multi_stage_handling_type s' = multi_stage_handling_type s \<and>
   last_status s' = last_status s \<and> send_sms_on_change s' = send_sms_on_change s"
  by (auto simp: send_sms_def andThen_eq_Inr write_command_def)

lemma scan_pin_steady:
  "flags_sized s \<Longrightarrow> scan_pin inp i s = Inr s' \<Longrightarrow> steady (current_time inp) s s'"
  by (auto simp: scan_pin_def Let_def andThen_eq_Inr steady_def flags_sized_def await_def
      nth_list_update split: if_splits dest!: send_sms_frame)

lemma scan_pins_steady:
  "flags_sized s \<Longrightarrow> scan_pins inp pins s = Inr s' \<Longrightarrow> steady (current_time inp) s s'"
proof (induction pins arbitrary: s)
  case Nil
  then show ?case by (simp add: steady_refl)
next
  case (Cons i pins)
  from Cons.prems(2) obtain s1 where 1: "scan_pin inp i s = Inr s1" and 2: "scan_pins inp pins s1 = Inr s'"
    by (auto simp: andThen_eq_Inr)
  have a: "steady (current_time inp) s s1" using Cons.prems(1) 1 by (rule scan_pin_steady)
  then have "flags_sized s1" by (simp add: steady_def)
  then have "steady (current_time inp) s1 s'" using 2 by (rule Cons.IH)
  with a show ?case by (rule steady_trans)
qed

lemma check_gpio_steady:
  assumes "flags_sized s" "check_gpio inp s = Inr s'"
  shows "steady (current_time inp) s s'"
proof (cases "current_time inp - last_status_check_time s > 1000000 \<and> \<not> awaiting_response s ! UNKNOWN")
  case True
  let ?s0 = "s\<lparr>last_status_check_time := current_time inp\<rparr>"
  have "scan_pins inp [0..<GPIO_NUMBER_PINS] ?s0 = Inr s'"
    using assms(2) True by (simp add: check_gpio_def)
  moreover have "flags_sized ?s0" using assms(1) by (simp add: flags_sized_def)
  ultimately have "steady (current_time inp) ?s0 s'" by (rule scan_pins_steady [rotated])
  then show ?thesis by (simp add: steady_def)
next
  case False
  then show ?thesis using assms by (auto simp: check_gpio_def steady_refl)
qed

lemma check_pw_reset_steady:
  "flags_sized s \<Longrightarrow> check_pw_reset inp s = Inr s' \<Longrightarrow> steady (current_time inp) s s'"
  by (auto simp: check_pw_reset_def Let_def andThen_eq_Inr steady_def flags_sized_def await_def
      nth_list_update split: if_splits dest!: send_sms_frame)

lemma save_if_needed_steady:
  "flags_sized s \<Longrightarrow> save_if_needed s = Inr s' \<Longrightarrow> steady now s s'"
  by (auto simp: save_if_needed_def save_settings_def andThen_eq_Inr steady_def flags_sized_def
      split: if_splits)

lemma andThenE:
  assumes "andThen m f = Inr r"
  obtains a where "m = Inr a" "f a = Inr r"
  using assms by (cases m) auto

lemma loop_iteration_stages:
  assumes "loop_iteration inp s = Inr s'"
  obtains a b c d e f g h where
    "receive inp s = Inr a"
    "cpsi_response inp (cpsi_check inp (collect_awaiting a)) = Inr b"
    "process_cmti inp (creg_response inp (creg_check inp b)) = Inr c"
    "process_cmgr (current_time inp) (process_clcc inp c) = Inr d"
    "process_csq inp d = Inr e"
    "process_ok inp (process_cmgs inp (cmgd_check inp e)) = Inr f"
    "check_gpio inp (check_timeouts inp (process_unknown f)) = Inr g"
    "check_pw_reset inp g = Inr h"
    "save_if_needed h = Inr s'"
  using assms unfolding loop_iteration_def
  apply (elim andThenE)
  apply blast
  done

text \<open>From the collected flags to the arrival of OK: the blocks of lines 543-900.\<close>

lemma before_ok_steady:
  assumes fs: "flags_sized a0"
    and 2: "cpsi_response inp (cpsi_check inp a0) = Inr b"
    and 3: "process_cmti inp (creg_response inp (creg_check inp b)) = Inr c"
    and 4: "process_cmgr (current_time inp) (process_clcc inp c) = Inr d"
    and 5: "process_csq inp d = Inr e"
  shows "steady (current_time inp) a0 (process_cmgs inp (cmgd_check inp e))"
proof -
  let ?n = "current_time inp"
  note sz = steady_def [THEN iffD1, THEN conjunct1]
  have s1: "steady ?n a0 (cpsi_check inp a0)" using fs by (rule cpsi_check_steady)
  have s2: "steady ?n (cpsi_check inp a0) b" using sz [OF s1] 2 by (rule cpsi_response_steady)
  have s3: "steady ?n b (creg_check inp b)" using sz [OF s2] by (rule creg_check_steady)
  have s4: "steady ?n (creg_check inp b) (creg_response inp (creg_check inp b))"
    using sz [OF s3] by (rule creg_response_steady)
  have s5: "steady ?n (creg_response inp (creg_check inp b)) c"
    using sz [OF s4] 3 by (rule process_cmti_steady)
  have s6: "steady ?n c (process_clcc inp c)" using sz [OF s5] by (rule process_clcc_steady)
  have s7: "steady ?n (process_clcc inp c) d" using sz [OF s6] 4 by (rule process_cmgr_steady)
  have s8: "steady ?n d e" using sz [OF s7] 5 by (rule process_csq_steady)
  have s9: "steady ?n e (cmgd_check inp e)" using sz [OF s8] by (rule cmgd_check_steady)
  have s10: "steady ?n (cmgd_check inp e) (process_cmgs inp (cmgd_check inp e))"
    using sz [OF s9] by (rule process_cmgs_steady)
  note s1
  also note s2 also note s3 also note s4 also note s5
  also note s6 also note s7 also note s8 also note s9 also note s10
  finally show ?thesis .
qed

text \<open>After the timeout loop: the blocks of lines 963-1049.\<close>

lemma after_timeouts_steady:
  assumes fs: "flags_sized t"
    and 7: "check_gpio inp t = Inr g"
    and 8: "check_pw_reset inp g = Inr h"
    and 9: "save_if_needed h = Inr s'"
  shows "steady (current_time inp) t s'"
proof -
  let ?n = "current_time inp"
  note sz = steady_def [THEN iffD1, THEN conjunct1]
  have s1: "steady ?n t g" using fs 7 by (rule check_gpio_steady)
  have s2: "steady ?n g h" using sz [OF s1] 8 by (rule check_pw_reset_steady)
  have s3: "steady ?n h s'" using sz [OF s2] 9 by (rule save_if_needed_steady)
  note s1 also note s2 also note s3
  finally show ?thesis .
qed

text \<open>One traversal of the loop keeps the wait for OK: when OK is awaited, no OK has
  been received or arrives in this traversal, and no more than 60 s have passed since the
  stamp, the traversal leaves \<^verbatim>\<open>awaiting_response[OK]\<close> and the busy flag set.\<close>

lemma awaiting_ok_persists:
  assumes fs: "flags_sized s" and aw: "awaiting_response s ! OK" and nr: "\<not> received s ! OK"
    and line: "\<forall>line. rx_line inp = Some line \<longrightarrow> take 2 (cstr line) \<noteq> ''OK''"
    and fresh: "current_time inp - initiate_time s ! OK \<le> 60000000"
    and run: "loop_iteration inp s = Inr s'"
  shows "awaiting_response s' ! OK \<and> awaiting_response s' ! UNKNOWN"
proof -
  let ?n = "current_time inp"
  from run obtain a b c d e f g h where st:
    "receive inp s = Inr a"
    "cpsi_response inp (cpsi_check inp (collect_awaiting a)) = Inr b"
    "process_cmti inp (creg_response inp (creg_check inp b)) = Inr c"
    "process_cmgr (current_time inp) (process_clcc inp c) = Inr d"
    "process_csq inp d = Inr e"
    "process_ok inp (process_cmgs inp (cmgd_check inp e)) = Inr f"
    "check_gpio inp (check_timeouts inp (process_unknown f)) = Inr g"
    "check_pw_reset inp g = Inr h"
    "save_if_needed h = Inr s'"
    by (rule loop_iteration_stages)
  let ?a0 = "collect_awaiting a" and ?e2 = "process_cmgs inp (cmgd_check inp e)"
  have a: "awaiting_response a = awaiting_response s" "initiate_time a = initiate_time s"
    "\<not> received a ! OK"
    using receive_frame [OF st(1)] nr line by auto
  have fa: "flags_sized a" using fs a by (simp add: flags_sized_def)
  have a0: "flags_sized ?a0" "awaiting_response ?a0 ! OK" "awaiting_response ?a0 ! UNKNOWN"
    "initiate_time ?a0 ! OK = initiate_time s ! OK" "\<not> received ?a0 ! OK"
    using collect_awaiting_steady [OF fa] a aw by simp_all
  have "steady ?n ?a0 ?e2" using a0(1) st(2-5) by (rule before_ok_steady)
  then have e2: "flags_sized ?e2" "awaiting_response ?e2 ! OK" "awaiting_response ?e2 ! UNKNOWN"
    "initiate_time ?e2 ! OK = initiate_time s ! OK \<or> initiate_time ?e2 ! OK = ?n" "\<not> received ?e2 ! OK"
    using a0 by (auto simp: steady_def)
  have f: "flags_sized f" "awaiting_response f ! OK" "awaiting_response f ! UNKNOWN"
    "initiate_time f ! OK = initiate_time s ! OK \<or> initiate_time f ! OK = ?n"
    using process_ok_frame [OF e2(1) st(6)] e2 by auto
  have "steady ?n f (process_unknown f)" using f(1) by (rule process_unknown_steady)
  then have u: "flags_sized (process_unknown f)" "awaiting_response (process_unknown f) ! OK"
    "awaiting_response (process_unknown f) ! UNKNOWN"
    "initiate_time (process_unknown f) ! OK = initiate_time s ! OK \<or> initiate_time (process_unknown f) ! OK = ?n"
    using f by (auto simp: steady_def)
  let ?t = "check_timeouts inp (process_unknown f)"
  have t: "flags_sized ?t" "awaiting_response ?t ! OK" "awaiting_response ?t ! UNKNOWN"
    using check_timeouts_frame [OF u(1), of inp] u fresh by auto
  have "steady ?n ?t s'" using t(1) st(7-9) by (rule after_timeouts_steady)
  then show ?thesis using t by (simp add: steady_def)
qed

text \<open>A traversal keeps a pending action waited for, as long as the wait for OK does
  not time out in it.\<close>

lemma steady_pending_awaited: "steady now s s' \<Longrightarrow> pending_awaited s \<Longrightarrow> pending_awaited s'"
  by (auto simp: steady_def pending_awaited_def)

lemma pending_awaited_unless_ok_times_out:
  assumes fs: "flags_sized s" and inv: "pending_awaited s"
    and fresh: "current_time inp - initiate_time s ! OK \<le> 60000000"
    and run: "loop_iteration inp s = Inr s'"
  shows "pending_awaited s'"
proof -
  let ?n = "current_time inp"
  from run obtain a b c d e f g h where st:
    "receive inp s = Inr a"
    "cpsi_response inp (cpsi_check inp (collect_awaiting a)) = Inr b"
    "process_cmti inp (creg_response inp (creg_check inp b)) = Inr c"
    "process_cmgr (current_time inp) (process_clcc inp c) = Inr d"
    "process_csq inp d = Inr e"
    "process_ok inp (process_cmgs inp (cmgd_check inp e)) = Inr f"
    "check_gpio inp (check_timeouts inp (process_unknown f)) = Inr g"
    "check_pw_reset inp g = Inr h"
    "save_if_needed h = Inr s'"
    by (rule loop_iteration_stages)
  let ?a0 = "collect_awaiting a" and ?e2 = "process_cmgs inp (cmgd_check inp e)"
  have a: "awaiting_response a = awaiting_response s" "initiate_time a = initiate_time s"
    "multi_stage_handling_type a = multi_stage_handling_type s"
    using receive_frame [OF st(1)] by auto
  have fa: "flags_sized a" using fs a by (simp add: flags_sized_def)
  have a0: "flags_sized ?a0" "pending_awaited ?a0" "initiate_time ?a0 ! OK = initiate_time s ! OK"
    using collect_awaiting_steady [OF fa] a inv by (simp_all add: pending_awaited_def)
  have "steady ?n ?a0 ?e2" using a0(1) st(2-5) by (rule before_ok_steady)
  then have e2: "flags_sized ?e2" "pending_awaited ?e2"
    "initiate_time ?e2 ! OK = initiate_time s ! OK \<or> initiate_time ?e2 ! OK = ?n"
    using a0 steady_pending_awaited by (auto simp: steady_def)
  have f: "flags_sized f" "pending_awaited f"
    "initiate_time f ! OK = initiate_time s ! OK \<or> initiate_time f ! OK = ?n"
    using process_ok_frame(1,2,4) [OF e2(1) st(6)] e2 by (auto simp: pending_awaited_def)
  have su: "steady ?n f (process_unknown f)" using f(1) by (rule process_unknown_steady)
  then have u: "flags_sized (process_unknown f)" "pending_awaited (process_unknown f)"
    "initiate_time (process_unknown f) ! OK = initiate_time s ! OK \<or> initiate_time (process_unknown f) ! OK = ?n"
    using f steady_pending_awaited by (auto simp: steady_def)
  let ?t = "check_timeouts inp (process_unknown f)"
  have t: "flags_sized ?t" "pending_awaited ?t"
    using check_timeouts_frame [OF u(1), of inp] u fresh by (auto simp: pending_awaited_def)
  have "steady ?n ?t s'" using t(1) st(7-9) by (rule after_timeouts_steady)
  then show ?thesis using t(2) by (rule steady_pending_awaited)
qed

section \<open>The read-out handler returns\<close>

lemma parser_ready_type [simp]:
  "parser_ready (s\<lparr>multi_stage_handling_type := t\<rparr>) = parser_ready s"
  by (simp add: parser_ready_def tables_ok_def sizes_ok_def passw_is_def)

lemma parser_ready_dirty [simp]:
  "parser_ready (s\<lparr>store_new_flash_settings := b\<rparr>) = parser_ready s"
  by (simp add: parser_ready_def tables_ok_def sizes_ok_def passw_is_def)






lemma parser_ready_tel_no:
  "parser_ready s \<Longrightarrow> length t = 50 \<Longrightarrow> parser_ready (s\<lparr>tel_no := t\<rparr>)"
  by (simp add: parser_ready_def tables_ok_def sizes_ok_def passw_is_def)

lemma parser_ready_passw:
  "parser_ready s \<Longrightarrow> length p = 6 \<Longrightarrow> NUL \<notin> set p \<Longrightarrow> parser_ready (s\<lparr>passw := p @ [NUL]\<rparr>)"
  by (simp add: parser_ready_def tables_ok_def sizes_ok_def passw_is_def)

lemma parser_ready_flags:
  "parser_ready s \<Longrightarrow> length fl = GPIO_NUMBER_PINS \<Longrightarrow> parser_ready (s\<lparr>send_sms_on_change := fl\<rparr>)"
  by (simp add: parser_ready_def tables_ok_def sizes_ok_def passw_is_def)

lemma strncpy_fits:
  "n \<le> length dst \<Longrightarrow> strncpy dst src n = Inr (take n (src @ replicate n NUL) @ drop n dst)"
  by (simp add: strncpy_def)

lemma strncpy_length:
  "n \<le> length dst \<Longrightarrow> length (take n (src @ replicate n NUL) @ drop n dst) = length dst"
  by simp



















text \<open>Every valid configuration is among the states of the theorem below: with the
  arrays of \<open>tables_ok\<close> and a terminated body it is \<open>parser_ready\<close>, and it is
  \<open>rows_readable\<close> for every body that has no \<^verbatim>\<open>3\<close> at byte 19.\<close>

lemma valid_config_parser_ready:
  assumes "tables_ok s" and "valid_config s" and "NUL \<in> set (received_sms_text s)"
  shows "parser_ready s" and "received_sms_text s ! 19 \<noteq> CHR ''3'' \<Longrightarrow> rows_readable s"
proof -
  have sz: "sizes_ok s" and six: "length (cstr (passw s)) = 6"
    and rows: "list_all (\<lambda>r. NUL \<in> set r) (sms_on_fall s)" "list_all (\<lambda>r. NUL \<in> set r) (sms_on_rise s)"
    using assms(2) by (simp_all add: valid_config_def)
  have l7: "length (passw s) = 7" using sz by (simp add: sizes_ok_def)
  have "NUL \<in> set (passw s)"
  proof (rule ccontr)
    assume "NUL \<notin> set (passw s)"
    then have "cstr (passw s) = passw s" by (auto simp: cstr_def)
    with six l7 show False by simp
  qed
  then have "passw s = cstr (passw s) @ NUL # drop (Suc (length (cstr (passw s)))) (passw s)"
    by (rule cstr_split)
  then have p: "passw s = cstr (passw s) @ [NUL]" using six l7 by simp
  then have "take 6 (passw s) = cstr (passw s)" using six by (metis append_eq_conv_conj)
  then have "passw_is s (take 6 (passw s))"
    using p six cstr_no_NUL [of "passw s"] by (simp add: passw_is_def)
  then show "parser_ready s"
    using assms(1,3) sz by (simp add: parser_ready_def)
  have "sms_on_fall s \<noteq> []" "sms_on_rise s \<noteq> []"
    using sz by (auto simp: sizes_ok_def)
  then have "NUL \<in> set (last (sms_on_fall s))" "NUL \<in> set (last (sms_on_rise s))"
    using rows by (simp_all add: list_all_iff)
  then show "rows_readable s" if "received_sms_text s ! 19 \<noteq> CHR ''3''"
    using that by (simp add: rows_readable_def)
qed

text \<open>A \<^verbatim>\<open>MessageText!\<close> command of more than 49 characters for the first input, in the
  device booted over an erased flash: byte 49 of the row keeps its power-on value, and the
  reply quotes the row and the message of the second input behind it.\<close>

lemma message_text_reads_on:
  "(case process_cmgr 5000000 (cmgr_ready_booted (''674358 MessageText!1!On!'' @ replicate 60 CHR ''x'')) of
      Inl e \<Rightarrow> None
    | Inr s' \<Rightarrow> Some (cstr (multi_stage_message s' ! MULTI_STAGE_RECEIVED_MSG), sms_on_fall s' ! 0,
                      awaiting_response s' ! OK, initiate_time s' ! OK)) =
   Some (''Ok. New message for input 1 activating: '' @ [DQUOTE] @ replicate 49 CHR ''x'' @ [CHR 0xAA] @
           ''Alarm system armed'' @ [DQUOTE],
         replicate 49 CHR ''x'' @ [CHR 0xAA], True, 5000000)"
  by code_simp

text \<open>The same command for the last input: the read leaves the array.\<close>

lemma message_text_leaves_array:
  "process_cmgr 5000000 (cmgr_ready_booted (''674358 MessageText!3!On!'' @ replicate 60 CHR ''x'')) =
   Inl Overrun"
  by code_simp



end
